theory Spec2Isabelle
  imports
    Main
    "HOL-Library.Sublist"
    "HOL-Library.Char_ord"
    "HOL-Library.List_Lexorder"
    "HOL-Library.Multiset"
    "HOL-Library.Word"
begin

section \<open>Text helpers of the Python runtime\<close>

text \<open>
  Python \<open>str\<close> values are modelled as \<^typ>\<open>string\<close>, one \<^typ>\<open>char\<close> per character:
  the characters with the codes 0 to 255, compared by character code as Python and SQLite
  (BINARY collation) compare text.

  \<open>str.lower()\<close> on these characters: the capital letters are \<open>A\<close> to \<open>Z\<close> (codes 65
  to 90) and the accented capitals with the codes 192 to 222, the multiplication sign 215
  apart; each has its small letter 32 codes further on. Every other character is left as
  it is.
\<close>

definition lower_char :: "char \<Rightarrow> char" where
  "lower_char c =
     (let n = (of_char c :: nat)
      in if (65 \<le> n \<and> n \<le> 90) \<or> (192 \<le> n \<and> n \<le> 222 \<and> n \<noteq> 215)
         then char_of (n + 32) else c)"

definition lower :: "string \<Rightarrow> string" where
  "lower s = map lower_char s"

text \<open>The operator \<open>w in text\<close> on strings: does \<open>w\<close> occur in \<open>text\<close> as a contiguous run?\<close>

fun str_in :: "string \<Rightarrow> string \<Rightarrow> bool" where
  "str_in w [] = (w = [])"
| "str_in w (c # cs) = (prefix w (c # cs) \<or> str_in w cs)"

text \<open>
  \<open>str.strip()\<close> without arguments removes leading and trailing whitespace, the
  characters for which \<open>str.isspace()\<close> holds: the codes 9 to 13 and 28 to 32, the next-line
  control 133 and the no-break space 160.
\<close>

definition is_space :: "char \<Rightarrow> bool" where
  "is_space c =
     (let n = (of_char c :: nat)
      in (9 \<le> n \<and> n \<le> 13) \<or> (28 \<le> n \<and> n \<le> 32) \<or> n = 133 \<or> n = 160)"

definition strip :: "string \<Rightarrow> string" where
  "strip s = rev (dropWhile is_space (rev (dropWhile is_space s)))"

section \<open>Spam detection\<close>

definition spam_keywords :: "string list" where
  "spam_keywords =
     [''lottery'', ''win money'', ''prize'', ''free offer'', ''urgent'',
      ''cash'', ''credit'', ''loan'', ''congratulations'', ''claim now'', ''click here'']"

text \<open>The \<open>for w in spam_keywords\<close> loop of \<open>detect_spam\<close>, returning at the first hit.\<close>

fun keyword_loop :: "string list \<Rightarrow> string \<Rightarrow> bool" where
  "keyword_loop [] text = False"
| "keyword_loop (w # ws) text = (if str_in w text then True else keyword_loop ws text)"

definition detect_spam :: "string \<Rightarrow> string \<Rightarrow> bool" where
  "detect_spam subject body =
     (let text = lower (subject @ '' '' @ body) in keyword_loop spam_keywords text)"

text \<open>
  The classifier as the specification words it: a keyword occurs in the lower-cased
  concatenation of subject and body (nothing between the two).
\<close>

definition isSpam_spec :: "string \<Rightarrow> string \<Rightarrow> bool" where
  "isSpam_spec subject body =
     list_ex (\<lambda>w. sublist w (lower (subject @ body))) spam_keywords"

section \<open>The store\<close>

text \<open>
  The two tables of \<open>email_system.db\<close>. A column of \<open>emails\<close> other than the key may
  hold NULL, written \<open>None\<close>. The list of rows is in the order in which the store returns
  them. \<open>seq\<close> is the counter that AUTOINCREMENT keeps: the largest id ever assigned.
\<close>

record email =
  eid :: nat
  recipient :: "string option"
  sender :: "string option"
  subject :: "string option"
  body :: "string option"
  attachment :: "string option"
  timestamp :: "string option"
  is_spam :: "int option"

record store =
  users :: "(string \<times> string) list"
  emails :: "email list"
  seq :: nat

text \<open>
  What a handler reports. The source shows a message box and returns; the boxes are named
  after the specification's error taxonomy: \<open>InvalidInput\<close> is "Username and password
  required" and "All fields are required!", \<open>DuplicateAccount\<close> is "User already
  exists!", \<open>UnknownRecipient\<close> is "Recipient not found!". The source has no box for
  \<open>NotFound\<close>: no handler ever returns it. \<open>StoreFull\<close> is the
  \<open>sqlite3.OperationalError\<close> of an INSERT that finds no id left; \<open>handle_send\<close> does
  not catch it, so the handler ends there with nothing inserted and no box shown.
\<close>

datatype error = InvalidInput | DuplicateAccount | UnknownRecipient | NotFound | StoreFull

definition handle_reg :: "string \<Rightarrow> string \<Rightarrow> store \<Rightarrow> (error + unit) \<times> store" where
  "handle_reg username password st =
     (if username = [] \<or> password = [] then (Inl InvalidInput, st)
      else if username \<in> fst ` set (users st) then (Inl DuplicateAccount, st)
      else (Inr (), st\<lparr>users := users st @ [(username, password)]\<rparr>))"

text \<open>
  The id an INSERT assigns: one more than every id in the table and than \<open>seq\<close>. Ids are
  signed 64-bit integers; once the largest one has been used, AUTOINCREMENT lets no
  further INSERT through.
\<close>

definition next_id :: "store \<Rightarrow> nat" where
  "next_id st = Suc (fold max (map eid (emails st)) (seq st))"

definition max_rowid :: nat where
  "max_rowid = 9223372036854775807"

text \<open>
  \<open>handle_send\<close> of the compose window. \<open>to_field\<close>, \<open>sub_field\<close> and \<open>msg_field\<close> are the
  widgets' contents as typed, \<open>attach\<close> is \<open>attach_data["file"]\<close> and \<open>now\<close> is
  \<open>datetime.now().isoformat()\<close>. A successful send reports whether the message was
  flagged (the source shows a warning box then, an information box otherwise).
\<close>

definition handle_send ::
  "string \<Rightarrow> string \<Rightarrow> string \<Rightarrow> string \<Rightarrow> string option \<Rightarrow> string \<Rightarrow> store
     \<Rightarrow> (error + bool) \<times> store" where
  "handle_send current_user to_field sub_field msg_field attach now st =
     (let recipient' = strip to_field;
          subject' = strip sub_field;
          body' = strip msg_field
      in if recipient' = [] \<or> subject' = [] \<or> body' = [] then (Inl InvalidInput, st)
         else if recipient' \<notin> fst ` set (users st) then (Inl UnknownRecipient, st)
         else if max_rowid < next_id st then (Inl StoreFull, st)
         else
           let flag = (if detect_spam subject' body' then 1 else 0 :: int);
               row = \<lparr>eid = next_id st, recipient = Some recipient',
                      sender = Some current_user, subject = Some subject',
                      body = Some body', attachment = attach, timestamp = Some now,
                      is_spam = Some flag\<rparr>
           in (Inr (flag \<noteq> 0), st\<lparr>emails := emails st @ [row], seq := next_id st\<rparr>))"

text \<open>\<open>UPDATE emails SET is_spam=1 WHERE id=?\<close>, then the box "Email moved to Spam folder".\<close>

definition mark_as_spam :: "nat \<Rightarrow> store \<Rightarrow> (error + unit) \<times> store" where
  "mark_as_spam email_id st =
     (Inr (),
      st\<lparr>emails := map (\<lambda>e. if eid e = email_id then e\<lparr>is_spam := Some 1\<rparr> else e) (emails st)\<rparr>)"

section \<open>Mailbox views\<close>

text \<open>
  A fetched row: id, the other party (index 1), subject, body, attachment, timestamp.
\<close>

type_synonym row =
  "nat \<times> string option \<times> string option \<times> string option \<times> string option \<times> string option"

definition row_person :: "row \<Rightarrow> string option" where
  "row_person r = fst (snd r)"

definition row_subject :: "row \<Rightarrow> string option" where
  "row_subject r = fst (snd (snd r))"

definition row_body :: "row \<Rightarrow> string option" where
  "row_body r = fst (snd (snd (snd r)))"

definition row_timestamp :: "row \<Rightarrow> string option" where
  "row_timestamp r = snd (snd (snd (snd (snd r))))"

text \<open>The column lists of the SELECT statements: the other party is the sender in the
  inbox and spam views and the recipient in the sent view.\<close>

definition received_row :: "email \<Rightarrow> row" where
  "received_row e = (eid e, sender e, subject e, body e, attachment e, timestamp e)"

definition sent_row :: "email \<Rightarrow> row" where
  "sent_row e = (eid e, recipient e, subject e, body e, attachment e, timestamp e)"

text \<open>The three SELECT statements of \<open>refresh\<close>, chosen by the tab's two flags.\<close>

definition folder_query :: "bool \<Rightarrow> bool \<Rightarrow> string \<Rightarrow> store \<Rightarrow> row list" where
  "folder_query spam inbox current_user st =
     (if spam then
        [received_row e. e \<leftarrow> emails st, recipient e = Some current_user \<and> is_spam e = Some 1]
      else if inbox then
        [received_row e. e \<leftarrow> emails st, recipient e = Some current_user]
      else
        [sent_row e. e \<leftarrow> emails st, sender e = Some current_user])"

text \<open>The tabs as \<open>open_mailbox_tabs\<close> sets them up.\<close>

definition inbox_tab :: "string \<Rightarrow> store \<Rightarrow> row list" where
  "inbox_tab = folder_query False True"

definition sent_tab :: "string \<Rightarrow> store \<Rightarrow> row list" where
  "sent_tab = folder_query False False"

definition spam_tab :: "string \<Rightarrow> store \<Rightarrow> row list" where
  "spam_tab = folder_query True True"

text \<open>\<open>x or ""\<close> on a nullable text column.\<close>

definition or_empty :: "string option \<Rightarrow> string" where
  "or_empty x = (case x of None \<Rightarrow> [] | Some s \<Rightarrow> s)"

definition search_filter :: "string \<Rightarrow> row list \<Rightarrow> row list" where
  "search_filter search rows =
     (let kw = lower search
      in if kw \<noteq> [] then
           filter (\<lambda>e. str_in kw (lower (or_empty (row_person e)))
                      \<or> str_in kw (lower (or_empty (row_subject e)))
                      \<or> str_in kw (lower (or_empty (row_body e)))) rows
         else rows)"

definition subject_key :: "row \<Rightarrow> string" where
  "subject_key x = lower (or_empty (row_subject x))"

definition person_key :: "row \<Rightarrow> string" where
  "person_key x = lower (or_empty (row_person x))"

definition extract_date :: "row \<Rightarrow> string" where
  "extract_date e = or_empty (row_timestamp e)"

text \<open>
  \<open>list.sort(key=...)\<close> is a stable sort, and a stable sort of a list is unique, so it is
  \<^const>\<open>sort_key\<close>. With \<open>reverse=True\<close> Python sorts descending and still keeps equal
  keys in their original order: the reversed stable sort of the reversed list.
\<close>

definition sort_rows :: "string \<Rightarrow> row list \<Rightarrow> row list" where
  "sort_rows sort_var rows =
     (if sort_var = ''Subject'' then sort_key subject_key rows
      else if sort_var = ''Sender/Recipient'' then sort_key person_key rows
      else rev (sort_key extract_date (rev rows)))"

definition refresh :: "bool \<Rightarrow> bool \<Rightarrow> string \<Rightarrow> string \<Rightarrow> string \<Rightarrow> store \<Rightarrow> row list" where
  "refresh spam inbox current_user search sort_var st =
     sort_rows sort_var (search_filter search (folder_query spam inbox current_user st))"

section \<open>Attachments\<close>

text \<open>
  File contents are byte sequences. \<open>base64.b64encode\<close> is the standard encoding: three
  bytes become four characters of the alphabet, and a last group of one or two bytes is
  padded with \<open>=\<close>.
\<close>

type_synonym byte = "8 word"

definition b64_alphabet :: string where
  "b64_alphabet = ''ABCDEFGHIJKLMNOPQRSTUVWXYZabcdefghijklmnopqrstuvwxyz0123456789+/''"

definition table_b2a :: "nat \<Rightarrow> char" where
  "table_b2a v = b64_alphabet ! v"

fun index_of :: "'a \<Rightarrow> 'a list \<Rightarrow> nat option" where
  "index_of x [] = None"
| "index_of x (y # ys) = (if x = y then Some 0 else map_option Suc (index_of x ys))"

definition table_a2b :: "char \<Rightarrow> nat option" where
  "table_a2b c = index_of c b64_alphabet"

fun b64encode :: "byte list \<Rightarrow> string" where
  "b64encode [] = []"
| "b64encode [a] =
     [table_b2a (unat a div 4), table_b2a (unat a mod 4 * 16), CHR ''='', CHR ''='']"
| "b64encode [a, b] =
     [table_b2a (unat a div 4), table_b2a (unat a mod 4 * 16 + unat b div 16),
      table_b2a (unat b mod 16 * 4), CHR ''='']"
| "b64encode (a # b # c # rest) =
     [table_b2a (unat a div 4), table_b2a (unat a mod 4 * 16 + unat b div 16),
      table_b2a (unat b mod 16 * 4 + unat c div 64), table_b2a (unat c mod 64)]
     @ b64encode rest"

text \<open>
  \<open>base64.b64decode\<close> in its default, non-strict mode: characters outside the alphabet
  are skipped, a pad ends the input once it completes a group of four, and input that
  ends inside a group is an error (\<open>None\<close>). \<open>quad_pos\<close> is the position in the
  current group, \<open>leftchar\<close> holds the bits not yet written. Text that is not ASCII
  is rejected before decoding.
\<close>

fun a2b_loop :: "string \<Rightarrow> nat \<Rightarrow> nat \<Rightarrow> nat \<Rightarrow> byte list \<Rightarrow> byte list option" where
  "a2b_loop [] quad_pos leftchar pads out = (if quad_pos \<noteq> 0 then None else Some out)"
| "a2b_loop (c # cs) quad_pos leftchar pads out =
     (if c = CHR ''='' then
        (if 2 \<le> quad_pos \<and> 4 \<le> quad_pos + (pads + 1) then Some out
         else a2b_loop cs quad_pos leftchar (if 2 \<le> quad_pos then pads + 1 else pads) out)
      else
        (case table_a2b c of
           None \<Rightarrow> a2b_loop cs quad_pos leftchar pads out
         | Some this_ch \<Rightarrow>
             (if quad_pos = 0 then a2b_loop cs 1 this_ch 0 out
              else if quad_pos = 1 then
                a2b_loop cs 2 (this_ch mod 16) 0 (out @ [of_nat (leftchar * 4 + this_ch div 16)])
              else if quad_pos = 2 then
                a2b_loop cs 3 (this_ch mod 4) 0 (out @ [of_nat (leftchar * 16 + this_ch div 4)])
              else a2b_loop cs 0 0 0 (out @ [of_nat (leftchar * 64 + this_ch)]))))"

definition b64decode :: "string \<Rightarrow> byte list option" where
  "b64decode s = (if list_ex (\<lambda>c. 128 \<le> (of_char c :: nat)) s then None else a2b_loop s 0 0 0 [])"



text \<open>
  \<open>choose_file\<close> keeps the encoded contents of the chosen file as text;
  \<open>save_attachment\<close> decodes the stored text to the bytes it writes.
\<close>

definition choose_file :: "byte list \<Rightarrow> string" where
  "choose_file data = b64encode data"

definition save_attachment :: "string \<Rightarrow> byte list option" where
  "save_attachment data = b64decode data"

section \<open>Calendar dates\<close>

text \<open>
  \<open>datetime.date\<close>: a day of the proleptic Gregorian calendar with its attributes
  \<open>year\<close>, \<open>month\<close> and \<open>day\<close>. Python builds only valid dates, of the years 1 to 9999.
\<close>

datatype date = Date (year: nat) (month: nat) (day: nat)

definition is_leap :: "nat \<Rightarrow> bool" where
  "is_leap y = (y mod 4 = 0 \<and> (y mod 100 \<noteq> 0 \<or> y mod 400 = 0))"

definition days_in_month :: "nat \<Rightarrow> nat \<Rightarrow> nat" where
  "days_in_month y m =
     (if m = 2 then (if is_leap y then 29 else 28)
      else if m = 4 \<or> m = 6 \<or> m = 9 \<or> m = 11 then 30 else 31)"

definition valid_date :: "date \<Rightarrow> bool" where
  "valid_date d =
     (1 \<le> year d \<and> year d \<le> 9999 \<and> 1 \<le> month d \<and> month d \<le> 12 \<and>
      1 \<le> day d \<and> day d \<le> days_in_month (year d) (month d))"

definition prev_day :: "date \<Rightarrow> date" where
  "prev_day d =
     (if 1 < day d then Date (year d) (month d) (day d - 1)
      else if 1 < month d then
        Date (year d) (month d - 1) (days_in_month (year d) (month d - 1))
      else Date (year d - 1) 12 31)"

definition next_day :: "date \<Rightarrow> date" where
  "next_day d =
     (if day d < days_in_month (year d) (month d) then Date (year d) (month d) (day d + 1)
      else if month d < 12 then Date (year d) (month d + 1) 1
      else Date (year d + 1) 1 1)"

text \<open>
  \<open>d - timedelta(days=n)\<close> and \<open>d + timedelta(days=n)\<close>: the date \<open>n\<close> days earlier or
  later. Python raises OverflowError when the result would lie before 0001-01-01 or after
  9999-12-31; that is the value \<open>None\<close>.
\<close>

fun date_sub :: "date \<Rightarrow> nat \<Rightarrow> date option" where
  "date_sub d 0 = Some d"
| "date_sub d (Suc n) = (if d = Date 1 1 1 then None else date_sub (prev_day d) n)"

fun date_add :: "date \<Rightarrow> nat \<Rightarrow> date option" where
  "date_add d 0 = Some d"
| "date_add d (Suc n) = (if d = Date 9999 12 31 then None else date_add (next_day d) n)"

text \<open>
  The format \<open>{:0wd}\<close> of an integer: its decimal digits, filled with zeros on the left up
  to width \<open>w\<close>, the sign first. \<open>date.isoformat()\<close> is \<open>YYYY-MM-DD\<close>.
\<close>

definition digit :: "nat \<Rightarrow> char" where
  "digit n = char_of (48 + n)"

fun dec_digits :: "nat \<Rightarrow> string" where
  "dec_digits n = (if n < 10 then [digit n] else dec_digits (n div 10) @ [digit (n mod 10)])"

definition zfill :: "nat \<Rightarrow> string \<Rightarrow> string" where
  "zfill w s = replicate (w - length s) CHR ''0'' @ s"

definition fmt_d :: "nat \<Rightarrow> int \<Rightarrow> string" where
  "fmt_d w n =
     (if n < 0 then CHR ''-'' # zfill (w - 1) (dec_digits (nat (- n)))
      else zfill w (dec_digits (nat n)))"

definition isoformat :: "date \<Rightarrow> string" where
  "isoformat d =
     fmt_d 4 (int (year d)) @ ''-'' @ fmt_d 2 (int (month d)) @ ''-'' @ fmt_d 2 (int (day d))"

section \<open>Analytics\<close>

text \<open>
  A Python dict keeps its keys in insertion order: an assignment to a key that is present
  replaces the value in place, an assignment to a new key appends.
\<close>

fun dict_set :: "'k \<Rightarrow> 'v \<Rightarrow> ('k \<times> 'v) list \<Rightarrow> ('k \<times> 'v) list" where
  "dict_set k v [] = [(k, v)]"
| "dict_set k v (p # ps) = (if fst p = k then (k, v) # ps else p # dict_set k v ps)"

text \<open>The conditions and expressions of the two SELECT statements of the time series:
  \<open>sender=? OR recipient=?\<close>, \<open>SUBSTR(timestamp,1,n)\<close> and \<open>timestamp >= ?\<close>; a comparison
  with NULL is not true.\<close>

definition involves :: "string \<Rightarrow> email \<Rightarrow> bool" where
  "involves u e = (sender e = Some u \<or> recipient e = Some u)"

definition ts_prefix :: "nat \<Rightarrow> email \<Rightarrow> string option" where
  "ts_prefix n e = map_option (take n) (timestamp e)"

definition sql_ge :: "string option \<Rightarrow> string \<Rightarrow> bool" where
  "sql_ge x s = (case x of None \<Rightarrow> False | Some t \<Rightarrow> s \<le> t)"

text \<open>\<open>SELECT key, COUNT(*) ... GROUP BY key ORDER BY key\<close> over the keys of the selected
  rows.\<close>

definition group_count :: "string list \<Rightarrow> (string \<times> nat) list" where
  "group_count ks = map (\<lambda>k. (k, count_list ks k)) (sort (remdups ks))"

text \<open>The loop \<open>for key, cnt in rows: if key in counts: counts[key] = cnt\<close>.\<close>

fun fill_counts :: "(string \<times> nat) list \<Rightarrow> (string \<times> nat) list \<Rightarrow> (string \<times> nat) list" where
  "fill_counts [] counts = counts"
| "fill_counts ((k, cnt) # rows) counts =
     fill_counts rows (if k \<in> fst ` set counts then dict_set k cnt counts else counts)"

definition day_rows :: "string \<Rightarrow> string \<Rightarrow> store \<Rightarrow> (string \<times> nat) list" where
  "day_rows u start st =
     group_count
       (List.map_filter
          (\<lambda>e. if involves u e \<and> sql_ge (timestamp e) start then ts_prefix 10 e else None)
          (emails st))"

text \<open>
  Emails per day: \<open>start_date\<close> is 29 days before \<open>today\<close>, \<open>date_counts\<close> gets a zero
  for each of the 30 days from \<open>start_date\<close> on, and the rows of the query fill it.
\<close>

definition daily_counts :: "date \<Rightarrow> string \<Rightarrow> store \<Rightarrow> (string \<times> nat) list option" where
  "daily_counts today u st =
     (case date_sub today 29 of
        None \<Rightarrow> None
      | Some start_date \<Rightarrow>
          (case those (map (date_add start_date) [0..<30]) of
             None \<Rightarrow> None
           | Some days \<Rightarrow>
               Some (fill_counts (day_rows u (isoformat start_date) st)
                       (fold (\<lambda>d. dict_set (isoformat d) 0) days []))))"

text \<open>
  Spam per month. The loop \<open>while month <= 0: month += 12; year -= 1\<close> is \<open>wrap_month\<close>
  (\<open>yr\<close> and \<open>mo\<close> are the source's \<open>year\<close> and \<open>month\<close>); \<open>month_key today i\<close> is the
  key of one round of \<open>for i in range(5, -1, -1)\<close>.
\<close>

function wrap_month :: "int \<Rightarrow> int \<Rightarrow> int \<times> int" where
  "wrap_month yr mo = (if mo \<le> 0 then wrap_month (yr - 1) (mo + 12) else (yr, mo))"
  by pat_completeness auto
termination
  by (relation "measure (\<lambda>(yr, mo). nat (1 - mo))") auto

definition month_key :: "date \<Rightarrow> int \<Rightarrow> string" where
  "month_key today i =
     (case wrap_month (int (year today)) (int (month today) - i) of
        (yr, mo) \<Rightarrow> fmt_d 4 yr @ ''-'' @ fmt_d 2 mo)"

definition month_keys :: "date \<Rightarrow> string list" where
  "month_keys today = map (month_key today) [5, 4, 3, 2, 1, 0]"

definition month_rows :: "string \<Rightarrow> string \<Rightarrow> store \<Rightarrow> (string \<times> nat) list" where
  "month_rows u six_months_ago st =
     group_count
       (List.map_filter
          (\<lambda>e. if involves u e \<and> is_spam e = Some 1 \<and> sql_ge (timestamp e) six_months_ago
               then ts_prefix 7 e else None)
          (emails st))"

text \<open>\<open>six_months_ago\<close> is 180 days before the first day of the current month.\<close>

definition monthly_spam_counts :: "date \<Rightarrow> string \<Rightarrow> store \<Rightarrow> (string \<times> nat) list option" where
  "monthly_spam_counts today u st =
     (case date_sub (Date (year today) (month today) 1) 180 of
        None \<Rightarrow> None
      | Some cutoff \<Rightarrow>
          Some (fill_counts (month_rows u (isoformat cutoff) st)
                  (fold (\<lambda>k. dict_set k 0) (month_keys today) [])))"

text \<open>
  The two time series of \<open>open_analytics\<close>, \<open>date_counts\<close> and \<open>month_counts\<close>, for the
  day \<open>today\<close> that \<open>datetime.now().date()\<close> returned; \<open>None\<close> when the date arithmetic
  raised.
\<close>

definition open_analytics ::
  "date \<Rightarrow> string \<Rightarrow> store \<Rightarrow> ((string \<times> nat) list \<times> (string \<times> nat) list) option" where
  "open_analytics today u st =
     (case daily_counts today u st of
        None \<Rightarrow> None
      | Some date_counts \<Rightarrow>
          (case monthly_spam_counts today u st of
             None \<Rightarrow> None
           | Some month_counts \<Rightarrow> Some (date_counts, month_counts)))"

section \<open>Notions used to state and prove the analytics results\<close>

text \<open>The \<open>k\<close> low decimal digits of a number, most significant first.\<close>

fun digits_k :: "nat \<Rightarrow> nat \<Rightarrow> string" where
  "digits_k 0 n = []"
| "digits_k (Suc k) n = digits_k k (n div 10) @ [digit (n mod 10)]"

text \<open>
  Day numbers: the number of a day counted from 0001-01-01 as day 1, as
  \<open>date.toordinal\<close> counts, and the calendar order of dates.
\<close>

definition year_days :: "nat \<Rightarrow> nat" where
  "year_days y = (if is_leap y then 366 else 365)"

definition days_before_year :: "nat \<Rightarrow> nat" where
  "days_before_year y = sum_list (map year_days [1..<y])"

definition days_before_month :: "nat \<Rightarrow> nat \<Rightarrow> nat" where
  "days_before_month y m = sum_list (map (days_in_month y) [1..<m])"

definition toordinal :: "date \<Rightarrow> nat" where
  "toordinal d = days_before_year (year d) + days_before_month (year d) (month d) + day d"

definition date_less :: "date \<Rightarrow> date \<Rightarrow> bool" where
  "date_less a b =
     (year a < year b \<or> year a = year b \<and>
        (month a < month b \<or> month a = month b \<and> day a < day b))"

text \<open>
  The calendar month \<open>i\<close> months before month \<open>m\<close> of year \<open>y\<close>, for \<open>i\<close> below 12, and
  the key \<open>YYYY-MM\<close> of a month.
\<close>

definition months_before :: "nat \<Rightarrow> nat \<Rightarrow> nat \<Rightarrow> nat \<times> nat" where
  "months_before y m i = (if m \<le> i then (y - 1, m + 12 - i) else (y, m - i))"

definition ym_key :: "nat \<times> nat \<Rightarrow> string" where
  "ym_key ym = digits_k 4 (fst ym) @ ''-'' @ digits_k 2 (snd ym)"

section \<open>Example data\<close>

definition demo_accounts :: store where
  "demo_accounts = \<lparr>users = [(''alice'', ''a1''), (''bob'', ''b2'')], emails = [], seq = 0\<rparr>"

definition demo_mail :: store where
  "demo_mail =
     \<lparr>users = [(''alice'', ''a1''), (''bob'', ''b2'')],
      emails =
        [\<lparr>eid = 1, recipient = Some ''bob'', sender = Some ''alice'', subject = Some ''B'',
          body = Some ''first'', attachment = None,
          timestamp = Some ''2024-05-01T09:00:00'', is_spam = Some 0\<rparr>,
         \<lparr>eid = 2, recipient = Some ''bob'', sender = Some ''alice'', subject = Some ''a'',
          body = Some ''second'', attachment = None,
          timestamp = Some ''2024-05-02T09:00:00'', is_spam = Some 1\<rparr>,
         \<lparr>eid = 3, recipient = Some ''bob'', sender = Some ''alice'', subject = Some ''b'',
          body = Some ''third'', attachment = None,
          timestamp = Some ''2024-05-03T09:00:00'', is_spam = Some 0\<rparr>,
         \<lparr>eid = 4, recipient = Some ''alice'', sender = Some ''bob'', subject = None,
          body = Some ''fourth'', attachment = None,
          timestamp = Some ''2024-05-04T09:00:00'', is_spam = Some 0\<rparr>],
      seq = 4\<rparr>"

definition demo_latin :: store where
  "demo_latin =
     \<lparr>users = [(''alice'', ''a1''), (''bob'', ''b2'')],
      emails =
        [\<lparr>eid = 1, recipient = Some ''bob'', sender = Some ''alice'',
          subject = Some [CHR 0xE1], body = Some ''first'', attachment = None,
          timestamp = Some ''2024-05-01T09:00:00'', is_spam = Some 0\<rparr>,
         \<lparr>eid = 2, recipient = Some ''bob'', sender = Some ''alice'',
          subject = Some [CHR 0xD1], body = Some ''second'', attachment = None,
          timestamp = Some ''2024-05-02T09:00:00'', is_spam = Some 0\<rparr>,
         \<lparr>eid = 3, recipient = Some ''bob'', sender = Some ''alice'',
          subject = Some ''z'', body = Some ''third'', attachment = None,
          timestamp = Some ''2024-05-03T09:00:00'', is_spam = Some 0\<rparr>],
      seq = 3\<rparr>"

section \<open>Properties of the text helpers\<close>

lemma str_in_iff_sublist: "str_in w t \<longleftrightarrow> sublist w t"
  by (induction t) (simp_all add: sublist_Cons_right)

lemma keyword_loop_iff: "keyword_loop ws t \<longleftrightarrow> (\<exists>w \<in> set ws. sublist w t)"
  by (induction ws) (simp_all add: str_in_iff_sublist)

section \<open>The classifier\<close>

text \<open>
  C1 (as amended). \<open>detect_spam\<close> joins subject and body with one space, lower-cases the
  result and answers true exactly when one of the eleven keywords occurs in that text as
  a contiguous substring.
\<close>

theorem detect_spam_iff_keyword:
  "detect_spam subj bdy \<longleftrightarrow>
     (\<exists>w \<in> set spam_keywords. \<exists>ps ss. lower (subj @ '' '' @ bdy) = ps @ w @ ss)"
  by (simp add: detect_spam_def keyword_loop_iff sublist_def)

theorem detect_spam_iff_keyword_witness:
  "detect_spam ''Special offer'' ''You are pre-approved for a loan today'' \<and>
   (\<exists>w \<in> set spam_keywords. \<exists>ps ss.
      lower (''Special offer'' @ '' '' @ ''You are pre-approved for a loan today'')
        = ps @ w @ ss)"
proof -
  have hit: "detect_spam ''Special offer'' ''You are pre-approved for a loan today''"
    by code_simp
  from hit
    detect_spam_iff_keyword [of "''Special offer''" "''You are pre-approved for a loan today''"]
  show ?thesis by blast
qed

text \<open>
  C1 as stated fails: with subject \<open>win\<close> and body \<open>money\<close> the code finds the keyword
  \<open>win money\<close> across the separating space, while the plain concatenation \<open>winmoney\<close>
  holds no keyword.
\<close>

theorem detect_spam_concat_counterexample:
  "detect_spam ''win'' ''money'' \<noteq> isSpam_spec ''win'' ''money''"
  by code_simp

section \<open>Registration\<close>

text \<open>
  C10. Registration with an empty password reports an error and creates no account,
  whatever the username is; the store is returned as it was.
\<close>

theorem handle_reg_empty_password:
  "handle_reg username [] st = (Inl InvalidInput, st)"
  by (simp add: handle_reg_def)

theorem handle_reg_empty_password_example:
  "handle_reg ''carol'' [] demo_accounts = (Inl InvalidInput, demo_accounts)
   \<and> users (snd (handle_reg ''carol'' [] demo_accounts)) = [(''alice'', ''a1''), (''bob'', ''b2'')]"
  using handle_reg_empty_password [of "''carol''" demo_accounts]
  by (simp add: demo_accounts_def)

section \<open>Sending\<close>

lemma fold_max_ge_init: "(a::nat) \<le> fold max xs a"
  by (induction xs arbitrary: a) (auto intro: order_trans [OF max.cobounded2])

lemma fold_max_ge_elem: "x \<in> set xs \<Longrightarrow> (x::nat) \<le> fold max xs a"
proof (induction xs arbitrary: a)
  case Nil
  then show ?case by simp
next
  case (Cons y ys)
  show ?case
  proof (cases "x = y")
    case True
    have "y \<le> max y a" by simp
    also have "\<dots> \<le> fold max ys (max y a)" by (rule fold_max_ge_init)
    finally show ?thesis using True by simp
  next
    case False
    with Cons.prems have "x \<in> set ys" by simp
    then show ?thesis using Cons.IH by simp
  qed
qed

lemma next_id_fresh: "e \<in> set (emails st) \<Longrightarrow> eid e < next_id st"
  unfolding next_id_def using fold_max_ge_elem [of "eid e" "map eid (emails st)" "seq st"]
  by auto

text \<open>
  C4 (as amended). \<open>handle_send\<close> trims the three fields. When the trimmed recipient,
  subject or body is empty it fails with \<open>InvalidInput\<close>, whether or not the recipient
  exists. Otherwise, when no account has the trimmed recipient as its username, it fails
  with \<open>UnknownRecipient\<close>. Either failure leaves the store as it was. Otherwise, as
  long as the store has an id left to assign, exactly one row is appended, with a fresh
  id, the trimmed fields, the current user as sender and \<open>is_spam\<close> set in that same row
  to the classifier's verdict on the trimmed subject and body; the accounts are untouched.
  When the largest id has been used, the INSERT raises and the store stays as it was.
\<close>

theorem handle_send_cases:
  "(strip to_field = [] \<or> strip sub_field = [] \<or> strip msg_field = [] \<longrightarrow>
      handle_send cu to_field sub_field msg_field att now st = (Inl InvalidInput, st))
   \<and> (strip to_field \<noteq> [] \<and> strip sub_field \<noteq> [] \<and> strip msg_field \<noteq> [] \<and>
      strip to_field \<notin> fst ` set (users st) \<longrightarrow>
      handle_send cu to_field sub_field msg_field att now st = (Inl UnknownRecipient, st))
   \<and> (strip to_field \<noteq> [] \<and> strip sub_field \<noteq> [] \<and> strip msg_field \<noteq> [] \<and>
      strip to_field \<in> fst ` set (users st) \<and> next_id st \<le> max_rowid \<longrightarrow>
      (\<exists>e. handle_send cu to_field sub_field msg_field att now st =
             (Inr (detect_spam (strip sub_field) (strip msg_field)),
              st\<lparr>emails := emails st @ [e], seq := eid e\<rparr>)
         \<and> eid e \<notin> eid ` set (emails st)
         \<and> recipient e = Some (strip to_field) \<and> sender e = Some cu
         \<and> subject e = Some (strip sub_field) \<and> body e = Some (strip msg_field)
         \<and> attachment e = att \<and> timestamp e = Some now
         \<and> is_spam e = Some (if detect_spam (strip sub_field) (strip msg_field) then 1 else 0)))
   \<and> (strip to_field \<noteq> [] \<and> strip sub_field \<noteq> [] \<and> strip msg_field \<noteq> [] \<and>
      strip to_field \<in> fst ` set (users st) \<and> max_rowid < next_id st \<longrightarrow>
      handle_send cu to_field sub_field msg_field att now st = (Inl StoreFull, st))"
proof (intro conjI impI)
  assume "strip to_field = [] \<or> strip sub_field = [] \<or> strip msg_field = []"
  then show "handle_send cu to_field sub_field msg_field att now st = (Inl InvalidInput, st)"
    by (auto simp: handle_send_def Let_def)
next
  assume "strip to_field \<noteq> [] \<and> strip sub_field \<noteq> [] \<and> strip msg_field \<noteq> [] \<and>
      strip to_field \<notin> fst ` set (users st)"
  then show "handle_send cu to_field sub_field msg_field att now st = (Inl UnknownRecipient, st)"
    by (simp add: handle_send_def Let_def)
next
  assume "strip to_field \<noteq> [] \<and> strip sub_field \<noteq> [] \<and> strip msg_field \<noteq> [] \<and>
      strip to_field \<in> fst ` set (users st) \<and> max_rowid < next_id st"
  then show "handle_send cu to_field sub_field msg_field att now st = (Inl StoreFull, st)"
    by (simp add: handle_send_def Let_def)
next
  assume a: "strip to_field \<noteq> [] \<and> strip sub_field \<noteq> [] \<and> strip msg_field \<noteq> [] \<and>
      strip to_field \<in> fst ` set (users st) \<and> next_id st \<le> max_rowid"
  let ?flag = "if detect_spam (strip sub_field) (strip msg_field) then 1 else 0 :: int"
  let ?e = "\<lparr>eid = next_id st, recipient = Some (strip to_field), sender = Some cu,
             subject = Some (strip sub_field), body = Some (strip msg_field),
             attachment = att, timestamp = Some now, is_spam = Some ?flag\<rparr>"
  have fresh: "eid ?e \<notin> eid ` set (emails st)"
  proof
    assume "eid ?e \<in> eid ` set (emails st)"
    then obtain x where x: "x \<in> set (emails st)" "eid x = next_id st" by auto
    from next_id_fresh [OF x(1)] x(2) show False by simp
  qed
  have run: "handle_send cu to_field sub_field msg_field att now st =
      (Inr (detect_spam (strip sub_field) (strip msg_field)),
       st\<lparr>emails := emails st @ [?e], seq := eid ?e\<rparr>)"
    using a by (simp add: handle_send_def Let_def)
  show "\<exists>e. handle_send cu to_field sub_field msg_field att now st =
             (Inr (detect_spam (strip sub_field) (strip msg_field)),
              st\<lparr>emails := emails st @ [e], seq := eid e\<rparr>)
         \<and> eid e \<notin> eid ` set (emails st)
         \<and> recipient e = Some (strip to_field) \<and> sender e = Some cu
         \<and> subject e = Some (strip sub_field) \<and> body e = Some (strip msg_field)
         \<and> attachment e = att \<and> timestamp e = Some now
         \<and> is_spam e = Some (if detect_spam (strip sub_field) (strip msg_field) then 1 else 0)"
    by (rule exI [of _ ?e]) (use fresh run in simp)
qed

theorem handle_send_cases_witness:
  "handle_send ''alice'' ''bob'' [CHR 0xA0, CHR '' ''] ''hello'' None ''2024-05-01T09:00:00''
       demo_accounts
     = (Inl InvalidInput, demo_accounts)
   \<and> handle_send ''alice'' ''carol'' ''Hi'' ''hello'' None ''2024-05-01T09:00:00'' demo_accounts
     = (Inl UnknownRecipient, demo_accounts)
   \<and> (\<exists>e. handle_send ''alice'' '' bob'' ''Congratulations, you win money!''
             ''Claim your prize'' None ''2024-05-01T09:00:00'' demo_accounts
           = (Inr True, demo_accounts\<lparr>emails := emails demo_accounts @ [e], seq := eid e\<rparr>)
         \<and> recipient e = Some ''bob'' \<and> is_spam e = Some 1)
   \<and> handle_send ''alice'' ''bob'' ''Hi'' ''hello'' None ''2024-05-01T09:00:00''
       (demo_accounts\<lparr>seq := max_rowid\<rparr>)
     = (Inl StoreFull, demo_accounts\<lparr>seq := max_rowid\<rparr>)"
proof -
  have s1: "strip ''bob'' = ''bob''" "strip [CHR 0xA0, CHR '' ''] = []" "strip ''hello'' = ''hello''"
    "strip ''carol'' = ''carol''" "strip ''Hi'' = ''Hi''" "strip '' bob'' = ''bob''"
    "strip ''Congratulations, you win money!'' = ''Congratulations, you win money!''"
    "strip ''Claim your prize'' = ''Claim your prize''"
    by code_simp+
  have u: "fst ` set (users demo_accounts) = {''alice'', ''bob''}"
    by (simp add: demo_accounts_def)
  have d: "detect_spam ''Congratulations, you win money!'' ''Claim your prize''"
    by code_simp
  have n: "next_id demo_accounts \<le> max_rowid" "\<not> max_rowid < next_id demo_accounts"
    by (simp_all add: next_id_def demo_accounts_def max_rowid_def)
  have n': "max_rowid < next_id (demo_accounts\<lparr>seq := max_rowid\<rparr>)"
    "\<not> next_id (demo_accounts\<lparr>seq := max_rowid\<rparr>) \<le> max_rowid"
    by (simp_all add: next_id_def demo_accounts_def)
  have a: "handle_send ''alice'' ''bob'' [CHR 0xA0, CHR '' ''] ''hello'' None
      ''2024-05-01T09:00:00'' demo_accounts = (Inl InvalidInput, demo_accounts)"
    using handle_send_cases [of "''bob''" "[CHR 0xA0, CHR '' '']" "''hello''" "''alice''" None
        "''2024-05-01T09:00:00''" demo_accounts]
    by (simp add: s1)
  have b: "handle_send ''alice'' ''carol'' ''Hi'' ''hello'' None ''2024-05-01T09:00:00''
      demo_accounts = (Inl UnknownRecipient, demo_accounts)"
    using handle_send_cases [of "''carol''" "''Hi''" "''hello''" "''alice''" None
        "''2024-05-01T09:00:00''" demo_accounts]
    by (simp add: s1 u)
  have c: "\<exists>e. handle_send ''alice'' '' bob'' ''Congratulations, you win money!''
             ''Claim your prize'' None ''2024-05-01T09:00:00'' demo_accounts
           = (Inr True, demo_accounts\<lparr>emails := emails demo_accounts @ [e], seq := eid e\<rparr>)
         \<and> recipient e = Some ''bob'' \<and> is_spam e = Some 1"
  proof -
    from handle_send_cases [of "'' bob''" "''Congratulations, you win money!''"
        "''Claim your prize''" "''alice''" None "''2024-05-01T09:00:00''" demo_accounts]
    obtain e where
      "handle_send ''alice'' '' bob'' ''Congratulations, you win money!''
             ''Claim your prize'' None ''2024-05-01T09:00:00'' demo_accounts
           = (Inr True, demo_accounts\<lparr>emails := emails demo_accounts @ [e], seq := eid e\<rparr>)"
      "recipient e = Some ''bob''" "is_spam e = Some 1"
      by (simp add: s1 u d n) (erule exE, simp)
    then show ?thesis by (intro exI conjI)
  qed
  have f: "handle_send ''alice'' ''bob'' ''Hi'' ''hello'' None ''2024-05-01T09:00:00''
       (demo_accounts\<lparr>seq := max_rowid\<rparr>)
     = (Inl StoreFull, demo_accounts\<lparr>seq := max_rowid\<rparr>)"
    using handle_send_cases [of "''bob''" "''Hi''" "''hello''" "''alice''" None
        "''2024-05-01T09:00:00''" "demo_accounts\<lparr>seq := max_rowid\<rparr>"]
    by (simp add: s1 u n')
  from a b c f show ?thesis by (intro conjI)
qed

text \<open>
  C4 as stated fails: an empty recipient names no account, subject and body are filled in,
  and the code reports \<open>InvalidInput\<close>, not \<open>UnknownRecipient\<close>.
\<close>

theorem handle_send_empty_recipient_counterexample:
  "[] \<notin> fst ` set (users demo_accounts) \<and>
   fst (handle_send ''alice'' [] ''Hi'' ''hello'' None ''2024-05-01T09:00:00'' demo_accounts)
     \<noteq> Inl UnknownRecipient"
  by (simp add: demo_accounts_def handle_send_def strip_def)

section \<open>Marking as spam\<close>

lemma mark_absent_emails:
  "i \<notin> eid ` set xs \<Longrightarrow> map (\<lambda>e. if eid e = i then e\<lparr>is_spam := Some 1\<rparr> else e) xs = xs"
  by (induction xs) auto

lemma mark_twice_emails:
  "map (\<lambda>e. if eid e = i then e\<lparr>is_spam := Some 1\<rparr> else e)
     (map (\<lambda>e. if eid e = i then e\<lparr>is_spam := Some 1\<rparr> else e) xs)
   = map (\<lambda>e. if eid e = i then e\<lparr>is_spam := Some 1\<rparr> else e) xs"
  by (induction xs) auto

lemma mark_flagged_emails:
  "list_all (\<lambda>e. eid e = i \<longrightarrow> is_spam e = Some 1)
     (map (\<lambda>e. if eid e = i then e\<lparr>is_spam := Some 1\<rparr> else e) xs)"
  by (induction xs) simp_all

lemma mark_keeps_ids:
  "map eid (map (\<lambda>e. if eid e = i then e\<lparr>is_spam := Some 1\<rparr> else e) xs) = map eid xs"
  by (induction xs) auto

lemma mark_as_spam_emails:
  "emails (snd (mark_as_spam i st))
     = map (\<lambda>e. if eid e = i then e\<lparr>is_spam := Some 1\<rparr> else e) (emails st)"
  by (simp add: mark_as_spam_def)

text \<open>
  C5 (as amended). \<open>mark_as_spam\<close> never fails: for every id, present or not, it reports
  success; for an id that no message has it leaves the store as it was.
\<close>

theorem mark_as_spam_always_succeeds:
  "fst (mark_as_spam i st) = Inr () \<and>
   (i \<notin> eid ` set (emails st) \<longrightarrow> snd (mark_as_spam i st) = st)"
  by (simp add: mark_as_spam_def mark_absent_emails)

theorem mark_as_spam_always_succeeds_witness:
  "7 \<notin> eid ` set (emails demo_mail) \<and> fst (mark_as_spam 7 demo_mail) = Inr () \<and>
   snd (mark_as_spam 7 demo_mail) = demo_mail"
proof -
  have absent: "7 \<notin> eid ` set (emails demo_mail)"
    by (simp add: demo_mail_def)
  from absent mark_as_spam_always_succeeds [of 7 demo_mail] show ?thesis by simp
qed

text \<open>
  C5 as stated fails: no message of the example store has id 7, and marking it is reported
  as a success, not as \<open>NotFound\<close>.
\<close>

theorem mark_as_spam_absent_counterexample:
  "7 \<notin> eid ` set (emails demo_mail) \<and> fst (mark_as_spam 7 demo_mail) \<noteq> Inl NotFound"
  by (simp add: demo_mail_def mark_as_spam_def)

text \<open>
  C7. For an id that a message of the store has, marking succeeds, the message is flagged
  afterwards, marking again succeeds too, the message is still flagged, and the store
  after the second marking is the store after the first.
\<close>

theorem mark_as_spam_idempotent:
  assumes "i \<in> eid ` set (emails st)"
  shows "fst (mark_as_spam i st) = Inr ()
    \<and> (\<exists>e \<in> set (emails (snd (mark_as_spam i st))). eid e = i)
    \<and> (\<forall>e \<in> set (emails (snd (mark_as_spam i st))). eid e = i \<longrightarrow> is_spam e = Some 1)
    \<and> fst (mark_as_spam i (snd (mark_as_spam i st))) = Inr ()
    \<and> snd (mark_as_spam i (snd (mark_as_spam i st))) = snd (mark_as_spam i st)
    \<and> (\<forall>e \<in> set (emails (snd (mark_as_spam i (snd (mark_as_spam i st))))).
          eid e = i \<longrightarrow> is_spam e = Some 1)"
proof -
  have flagged: "\<forall>e \<in> set (emails (snd (mark_as_spam i st))). eid e = i \<longrightarrow> is_spam e = Some 1"
    unfolding mark_as_spam_emails using mark_flagged_emails [of i "emails st"]
    by (simp only: list_all_iff)
  have same: "snd (mark_as_spam i (snd (mark_as_spam i st))) = snd (mark_as_spam i st)"
    by (simp add: mark_as_spam_def mark_twice_emails)
  have "eid ` set (emails (snd (mark_as_spam i st))) = eid ` set (emails st)"
    unfolding mark_as_spam_emails by (metis set_map mark_keeps_ids)
  with assms have "i \<in> eid ` set (emails (snd (mark_as_spam i st)))" by (simp only:)
  then have present: "\<exists>e \<in> set (emails (snd (mark_as_spam i st))). eid e = i"
    by (metis imageE)
  have ok: "fst (mark_as_spam i st) = Inr ()"
    "fst (mark_as_spam i (snd (mark_as_spam i st))) = Inr ()"
    by (simp_all add: mark_as_spam_def)
  show ?thesis
    unfolding same using flagged present ok by (intro conjI refl)
qed

theorem mark_as_spam_idempotent_witness:
  "1 \<in> eid ` set (emails demo_mail)
   \<and> fst (mark_as_spam 1 demo_mail) = Inr ()
   \<and> map is_spam (emails (snd (mark_as_spam 1 demo_mail))) = [Some 1, Some 1, Some 0, Some 0]
   \<and> fst (mark_as_spam 1 (snd (mark_as_spam 1 demo_mail))) = Inr ()
   \<and> snd (mark_as_spam 1 (snd (mark_as_spam 1 demo_mail))) = snd (mark_as_spam 1 demo_mail)"
proof -
  have present: "1 \<in> eid ` set (emails demo_mail)"
    by (simp add: demo_mail_def)
  have flags: "map is_spam (emails (snd (mark_as_spam 1 demo_mail)))
      = [Some 1, Some 1, Some 0, Some 0]"
    by (simp add: demo_mail_def mark_as_spam_def)
  from present flags mark_as_spam_idempotent [OF present] show ?thesis by simp
qed

section \<open>Folder views\<close>

lemma select_where:
  "concat (map (\<lambda>e. if P e then [f e] else []) xs) = map f (filter P xs)"
  by (induction xs) simp_all

text \<open>
  C2. The Inbox view holds exactly the messages whose recipient is the current user,
  whatever their \<open>is_spam\<close> flag, in store order; the Spam view holds exactly those of
  them whose \<open>is_spam\<close> is 1; the Sent view holds exactly the messages whose sender is
  the current user.
\<close>

theorem folder_views_exact:
  "inbox_tab u st = map received_row (filter (\<lambda>e. recipient e = Some u) (emails st))
   \<and> spam_tab u st =
       map received_row
         (filter (\<lambda>e. is_spam e = Some 1) (filter (\<lambda>e. recipient e = Some u) (emails st)))
   \<and> sent_tab u st = map sent_row (filter (\<lambda>e. sender e = Some u) (emails st))"
  by (simp add: inbox_tab_def spam_tab_def sent_tab_def folder_query_def select_where
      conj_commute)

theorem folder_views_exact_example:
  "map fst (inbox_tab ''bob'' demo_mail) = [1, 2, 3]
   \<and> map fst (spam_tab ''bob'' demo_mail) = [2]
   \<and> map fst (sent_tab ''bob'' demo_mail) = [4]"
  using folder_views_exact [of "''bob''" demo_mail]
  by (simp add: demo_mail_def received_row_def sent_row_def)

section \<open>Sorting a view\<close>

text \<open>
  C6. In every folder view and for every search text, sorting by Subject, and likewise by
  Sender/Recipient, yields the rows that passed the search filter (the same rows, as
  often), ascending by the lower-cased field, and rows with equal keys stay in the order in
  which the store returned them. A NULL field counts as the empty string, which is the
  least key.
\<close>

theorem refresh_sorted_stable:
  "sorted (map subject_key (refresh spam inbox u search ''Subject'' st))
   \<and> mset (refresh spam inbox u search ''Subject'' st)
       = mset (search_filter search (folder_query spam inbox u st))
   \<and> filter (\<lambda>r. subject_key r = k) (refresh spam inbox u search ''Subject'' st)
       = filter (\<lambda>r. subject_key r = k) (search_filter search (folder_query spam inbox u st))
   \<and> sorted (map person_key (refresh spam inbox u search ''Sender/Recipient'' st))
   \<and> mset (refresh spam inbox u search ''Sender/Recipient'' st)
       = mset (search_filter search (folder_query spam inbox u st))
   \<and> filter (\<lambda>r. person_key r = k) (refresh spam inbox u search ''Sender/Recipient'' st)
       = filter (\<lambda>r. person_key r = k) (search_filter search (folder_query spam inbox u st))
   \<and> subject_key (n, p, None, b, a, t) = []
   \<and> subject_key (n, p, Some s, b, a, t) = lower s
   \<and> person_key (n, None, s', b, a, t) = []
   \<and> person_key (n, Some s, s', b, a, t) = lower s
   \<and> [] \<le> subject_key r \<and> [] \<le> person_key r"
proof -
  have keys: "subject_key (n, p, None, b, a, t) = []"
    "subject_key (n, p, Some s, b, a, t) = lower s"
    "person_key (n, None, s', b, a, t) = []"
    "person_key (n, Some s, s', b, a, t) = lower s"
    by (simp_all add: subject_key_def person_key_def row_subject_def row_person_def
        or_empty_def lower_def)
  have by_subject: "refresh spam inbox u search ''Subject'' st
      = sort_key subject_key (search_filter search (folder_query spam inbox u st))"
    by (simp add: refresh_def sort_rows_def)
  have by_person: "refresh spam inbox u search ''Sender/Recipient'' st
      = sort_key person_key (search_filter search (folder_query spam inbox u st))"
    by (simp add: refresh_def sort_rows_def)
  show ?thesis
    unfolding by_subject by_person keys
    by (simp add: sort_key_stable)
qed

theorem refresh_sorted_stable_example:
  "map fst (inbox_tab ''bob'' demo_mail) = [1, 2, 3]
   \<and> map fst (refresh False True ''bob'' [] ''Subject'' demo_mail) = [2, 1, 3]
   \<and> sorted (map subject_key (refresh False True ''bob'' [] ''Subject'' demo_mail))
   \<and> map fst (refresh False True ''bob'' [] ''Subject'' demo_latin) = [3, 1, 2]
   \<and> sorted (map subject_key (refresh False True ''bob'' [] ''Subject'' demo_latin))"
proof -
  have a: "map fst (inbox_tab ''bob'' demo_mail) = [1, 2, 3]"
    by code_simp
  have b: "map fst (refresh False True ''bob'' [] ''Subject'' demo_mail) = [2, 1, 3]"
    by code_simp
  have c: "map fst (refresh False True ''bob'' [] ''Subject'' demo_latin) = [3, 1, 2]"
    by code_simp
  from a b c refresh_sorted_stable [of False True "''bob''" "[]" demo_mail]
    refresh_sorted_stable [of False True "''bob''" "[]" demo_latin]
  show ?thesis by simp
qed

section \<open>Attachment round trip\<close>

lemma index_of_nth: "distinct xs \<Longrightarrow> n < length xs \<Longrightarrow> index_of (xs ! n) xs = Some n"
proof (induction xs arbitrary: n)
  case Nil
  then show ?case by simp
next
  case (Cons y ys)
  show ?case
  proof (cases n)
    case 0
    then show ?thesis by simp
  next
    case (Suc m)
    with Cons.prems have "ys ! m \<in> set ys" "y \<notin> set ys" by auto
    then have "ys ! m \<noteq> y" by auto
    with Suc Cons show ?thesis by simp
  qed
qed

lemma distinct_alphabet: "distinct b64_alphabet"
  by (simp add: b64_alphabet_def)

lemma length_alphabet: "length b64_alphabet = 64"
  by (simp add: b64_alphabet_def)

lemma table_inverse: "v < 64 \<Longrightarrow> table_a2b (table_b2a v) = Some v"
  by (simp add: table_a2b_def table_b2a_def index_of_nth distinct_alphabet length_alphabet)

lemma pad_not_in_alphabet: "CHR ''='' \<notin> set b64_alphabet"
  by (simp add: b64_alphabet_def)

lemma table_not_pad:
  assumes v: "v < 64"
  shows "table_b2a v \<noteq> CHR ''=''"
proof
  assume eq: "table_b2a v = CHR ''=''"
  from v have "b64_alphabet ! v \<in> set b64_alphabet"
    by (simp add: length_alphabet)
  with eq pad_not_in_alphabet show False
    by (simp add: table_b2a_def)
qed

lemma alphabet_ascii: "\<forall>c \<in> set b64_alphabet. (of_char c :: nat) < 128"
  by (simp add: b64_alphabet_def)

lemma table_ascii: "v < 64 \<Longrightarrow> (of_char (table_b2a v) :: nat) < 128"
  using alphabet_ascii by (simp add: table_b2a_def length_alphabet)

lemma a2b_char:
  assumes "v < 64"
  shows "a2b_loop (table_b2a v # cs) quad_pos leftchar pads out =
     (if quad_pos = 0 then a2b_loop cs 1 v 0 out
      else if quad_pos = 1 then
        a2b_loop cs 2 (v mod 16) 0 (out @ [of_nat (leftchar * 4 + v div 16)])
      else if quad_pos = 2 then
        a2b_loop cs 3 (v mod 4) 0 (out @ [of_nat (leftchar * 16 + v div 4)])
      else a2b_loop cs 0 0 0 (out @ [of_nat (leftchar * 64 + v)]))"
  using assms table_not_pad [of v] by (simp add: table_inverse)

lemma byte_bounds: "unat (a::byte) < 256"
  using unsigned_less [of a, where 'a = nat] by simp

lemma sextets_nat:
  fixes a b c :: nat
  assumes "a < 256" "b < 256" "c < 256"
  shows "a div 4 < 64" "a mod 4 * 16 < 64" "a mod 4 * 16 + b div 16 < 64"
    "b mod 16 * 4 < 64" "b mod 16 * 4 + c div 64 < 64" "c mod 64 < 64"
proof -
  have m: "a mod 4 < 4" "b mod 16 < 16" "c mod 64 < 64" by simp_all
  have d: "a div 4 < 64" "b div 16 < 16" "c div 64 < 4"
    using assms by (simp_all add: less_mult_imp_div_less)
  show "a div 4 < 64" "a mod 4 * 16 < 64" "a mod 4 * 16 + b div 16 < 64"
    "b mod 16 * 4 < 64" "b mod 16 * 4 + c div 64 < 64" "c mod 64 < 64"
    using m d by linarith+
qed

lemmas sextets_bounded =
  sextets_nat [OF byte_bounds byte_bounds byte_bounds]

lemma first_byte_nat:
  fixes a x :: nat
  assumes "x < 16"
  shows "a div 4 * 4 + (a mod 4 * 16 + x) div 16 = a"
proof -
  have "(a mod 4 * 16 + x) div 16 = a mod 4"
    using assms by simp
  then show ?thesis by simp
qed

lemma second_byte_nat:
  fixes b x :: nat
  assumes "x < 4" "v = a mod 4 * 16 + b div 16" "b < 256"
  shows "v mod 16 * 16 + (b mod 16 * 4 + x) div 4 = b"
proof -
  have d: "b div 16 < 16" using assms(3) by (simp add: less_mult_imp_div_less)
  have "v mod 16 = b div 16"
    using d by (simp add: assms(2))
  moreover have "(b mod 16 * 4 + x) div 4 = b mod 16"
    using assms(1) by simp
  ultimately show ?thesis by simp
qed

lemma third_byte_nat:
  fixes c :: nat
  assumes "v = b mod 16 * 4 + c div 64" "c < 256"
  shows "v mod 4 * 64 + c mod 64 = c"
proof -
  have d: "c div 64 < 4" using assms(2) by (simp add: less_mult_imp_div_less)
  have "v mod 4 = c div 64"
    using d by (simp add: assms(1))
  then show ?thesis by simp
qed

lemma of_nat_unat_byte: "(of_nat (unat (a::byte)) :: byte) = a"
  by simp

lemma a2b_quad:
  "a2b_loop
     (table_b2a (unat a div 4) # table_b2a (unat a mod 4 * 16 + unat b div 16)
        # table_b2a (unat b mod 16 * 4 + unat c div 64) # table_b2a (unat c mod 64) # cs)
     0 l p out
   = a2b_loop cs 0 0 0 (out @ [a, b, c])"
proof -
  have b1: "unat a div 4 * 4 + (unat a mod 4 * 16 + unat b div 16) div 16 = unat a"
    by (rule first_byte_nat) (simp add: less_mult_imp_div_less byte_bounds)
  have b2: "(unat a mod 4 * 16 + unat b div 16) mod 16 * 16
      + (unat b mod 16 * 4 + unat c div 64) div 4 = unat b"
    by (rule second_byte_nat [OF _ refl byte_bounds])
      (simp add: less_mult_imp_div_less byte_bounds)
  have b3: "(unat b mod 16 * 4 + unat c div 64) mod 4 * 64 + unat c mod 64 = unat c"
    by (rule third_byte_nat [OF refl byte_bounds])
  show ?thesis
    using b1 b2 b3 by (simp add: a2b_char sextets_bounded del: a2b_loop.simps)
qed

lemma a2b_tail1:
  "a2b_loop [table_b2a (unat a div 4), table_b2a (unat a mod 4 * 16), CHR ''='', CHR ''='']
     0 l p out
   = Some (out @ [a])"
proof -
  have b1: "unat a div 4 * 4 + (unat a mod 4 * 16 + 0) div 16 = unat a"
    by (rule first_byte_nat) simp
  have "a2b_loop [table_b2a (unat a div 4), table_b2a (unat a mod 4 * 16), CHR ''='', CHR ''='']
      0 l p out
    = a2b_loop [CHR ''='', CHR ''=''] 2 (unat a mod 4 * 16 mod 16) 0 (out @ [a])"
    using b1 by (simp add: a2b_char sextets_bounded del: a2b_loop.simps)
  also have "\<dots> = Some (out @ [a])"
    by simp
  finally show ?thesis .
qed

lemma a2b_tail2:
  "a2b_loop
     [table_b2a (unat a div 4), table_b2a (unat a mod 4 * 16 + unat b div 16),
      table_b2a (unat b mod 16 * 4), CHR ''='']
     0 l p out
   = Some (out @ [a, b])"
proof -
  have b1: "unat a div 4 * 4 + (unat a mod 4 * 16 + unat b div 16) div 16 = unat a"
    by (rule first_byte_nat) (simp add: less_mult_imp_div_less byte_bounds)
  have b2: "(unat a mod 4 * 16 + unat b div 16) mod 16 * 16
      + (unat b mod 16 * 4 + 0) div 4 = unat b"
    by (rule second_byte_nat [OF _ refl byte_bounds]) simp
  have "a2b_loop
     [table_b2a (unat a div 4), table_b2a (unat a mod 4 * 16 + unat b div 16),
      table_b2a (unat b mod 16 * 4), CHR ''='']
     0 l p out
    = a2b_loop [CHR ''=''] 3 (unat b mod 16 * 4 mod 4) 0 (out @ [a, b])"
    using b1 b2 by (simp add: a2b_char sextets_bounded del: a2b_loop.simps)
  also have "\<dots> = Some (out @ [a, b])"
    by simp
  finally show ?thesis .
qed

lemma a2b_encode: "a2b_loop (b64encode bs) 0 l p out = Some (out @ bs)"
proof (induction bs arbitrary: l p out rule: b64encode.induct)
  case 1
  show ?case by simp
next
  case (2 a)
  show ?case by (simp only: b64encode.simps a2b_tail1)
next
  case (3 a b)
  show ?case by (simp only: b64encode.simps a2b_tail2)
next
  case (4 a b c rest)
  show ?case
    by (simp only: b64encode.simps append_Cons append_Nil a2b_quad "4.IH")
      simp
qed

lemma encode_ascii: "\<not> list_ex (\<lambda>c. 128 \<le> (of_char c :: nat)) (b64encode bs)"
proof (induction bs rule: b64encode.induct)
  case (4 a b c rest)
  then show ?case
    by (simp add: table_ascii sextets_bounded not_le)
qed (simp_all add: table_ascii sextets_bounded not_le)

lemma b64_roundtrip: "b64decode (b64encode bs) = Some bs"
  by (simp add: b64decode_def encode_ascii a2b_encode)

text \<open>
  C9. For every byte sequence, the empty one included, decoding at download what was
  encoded at compose time succeeds and gives back exactly the original bytes.
\<close>

theorem attachment_roundtrip: "save_attachment (choose_file bs) = Some bs"
  by (simp add: save_attachment_def choose_file_def b64_roundtrip)

theorem attachment_roundtrip_example:
  "save_attachment (choose_file []) = Some []
   \<and> choose_file [1, 2, 3, 4] = ''AQIDBA==''
   \<and> save_attachment ''AQIDBA=='' = Some [1, 2, 3, 4]"
proof -
  have enc: "choose_file [1, 2, 3, 4] = ''AQIDBA==''"
    by code_simp
  from enc attachment_roundtrip [of "[]"] attachment_roundtrip [of "[1, 2, 3, 4]"]
  show ?thesis by simp
qed


section \<open>Lexicographic order on text\<close>

lemma append_less_iff:
  fixes xs ys :: "'a::linorder list"
  shows "length xs = length ys \<Longrightarrow>
    (xs @ us < ys @ vs \<longleftrightarrow> xs < ys \<or> xs = ys \<and> us < vs)"
proof (induction xs arbitrary: ys)
  case Nil
  then show ?case by simp
next
  case (Cons x xs)
  then obtain y ys' where ys: "ys = y # ys'" "length xs = length ys'"
    by (cases ys) auto
  with Cons.IH [of ys'] show ?case by auto
qed

lemma take_le_self:
  fixes t :: "'a::linorder list"
  shows "take n t \<le> t"
proof (induction t arbitrary: n)
  case Nil
  then show ?case by simp
next
  case (Cons x xs)
  then show ?case by (cases n) simp_all
qed

lemma less_of_take_less:
  fixes a b :: "'a::linorder list"
  shows "take n a < take n b \<Longrightarrow> a < b"
proof (induction n arbitrary: a b)
  case 0
  then show ?case by simp
next
  case (Suc n)
  show ?case
  proof (cases a)
    case Nil
    with Suc.prems show ?thesis by (cases b) simp_all
  next
    case a: (Cons x xs)
    show ?thesis
    proof (cases b)
      case Nil
      with Suc.prems show ?thesis by simp
    next
      case b: (Cons y ys)
      from Suc.prems a b have "x < y \<or> x = y \<and> take n xs < take n ys" by simp
      with Suc.IH [of xs ys] a b show ?thesis by auto
    qed
  qed
qed

section \<open>Decimal formatting\<close>

lemma digit_less_iff: "a < 10 \<Longrightarrow> b < 10 \<Longrightarrow> digit a < digit b \<longleftrightarrow> a < b"
  by (simp add: digit_def less_char_def)

lemma digit_zero: "digit 0 = CHR ''0''"
  by (simp add: digit_def) code_simp

lemma digit_eq_iff: "a < 10 \<Longrightarrow> b < 10 \<Longrightarrow> digit a = digit b \<longleftrightarrow> a = b"
proof -
  assume "a < 10" "b < 10"
  then have "digit a < digit b \<longleftrightarrow> a < b" "digit b < digit a \<longleftrightarrow> b < a"
    by (simp_all add: digit_less_iff)
  then show ?thesis by (metis less_irrefl linorder_neqE_nat)
qed

lemma length_digits_k: "length (digits_k k n) = k"
  by (induction k arbitrary: n) simp_all

lemma digits_k_zero: "digits_k k 0 = replicate k (digit 0)"
  by (induction k) (simp_all add: replicate_append_same)

lemma digits_k_less:
  "n < m \<Longrightarrow> m < 10 ^ k \<Longrightarrow> digits_k k n < digits_k k m"
proof (induction k arbitrary: n m)
  case 0
  then show ?case by simp
next
  case (Suc k)
  from Suc.prems have le: "n div 10 \<le> m div 10" by (simp add: div_le_mono)
  from Suc.prems have bound: "m div 10 < 10 ^ k"
    by (simp add: less_mult_imp_div_less mult.commute)
  show ?case
  proof (cases "n div 10 < m div 10")
    case True
    with Suc.IH bound have "digits_k k (n div 10) < digits_k k (m div 10)" by simp
    then show ?thesis
      by (simp add: append_less_iff length_digits_k)
  next
    case False
    with le have eq: "n div 10 = m div 10" by simp
    with Suc.prems(1) have "n mod 10 < m mod 10"
      by (metis div_mult_mod_eq nat_add_left_cancel_less)
    then show ?thesis
      by (simp add: append_less_iff length_digits_k eq digit_less_iff)
  qed
qed

declare dec_digits.simps [simp del]

lemma length_dec_digits: "n < 10 ^ k \<Longrightarrow> 0 < k \<Longrightarrow> length (dec_digits n) \<le> k"
proof (induction k arbitrary: n)
  case 0
  then show ?case by simp
next
  case (Suc k)
  show ?case
  proof (cases "n < 10")
    case True
    then show ?thesis by (subst dec_digits.simps) simp
  next
    case False
    with Suc.prems have "n div 10 < 10 ^ k" "0 < k"
      by (auto simp: less_mult_imp_div_less mult.commute intro: Suc_lessI gr0I)
    with Suc.IH have "length (dec_digits (n div 10)) \<le> k" by simp
    with False show ?thesis by (subst dec_digits.simps) simp
  qed
qed

lemma zfill_dec_digits:
  "n < 10 ^ k \<Longrightarrow> 0 < k \<Longrightarrow> zfill k (dec_digits n) = digits_k k n"
proof (induction k arbitrary: n)
  case 0
  then show ?case by simp
next
  case (Suc k)
  show ?case
  proof (cases "n < 10")
    case True
    then have "dec_digits n = [digit n]" by (subst dec_digits.simps) simp
    with True show ?thesis
      by (simp add: zfill_def digits_k_zero digit_zero)
  next
    case False
    with Suc.prems have small: "n div 10 < 10 ^ k" and k: "0 < k"
      by (auto simp: less_mult_imp_div_less mult.commute intro: gr0I)
    have len: "length (dec_digits (n div 10)) \<le> k"
      using small k by (rule length_dec_digits)
    have "dec_digits n = dec_digits (n div 10) @ [digit (n mod 10)]"
      using False by (subst dec_digits.simps) simp
    moreover have "zfill k (dec_digits (n div 10)) = digits_k k (n div 10)"
      using small k by (rule Suc.IH)
    ultimately show ?thesis
      using len by (simp add: zfill_def Suc_diff_le)
  qed
qed

lemma fmt_d_digits: "0 \<le> n \<Longrightarrow> nat n < 10 ^ k \<Longrightarrow> 0 < k \<Longrightarrow> fmt_d k n = digits_k k (nat n)"
  by (simp add: fmt_d_def zfill_dec_digits)

section \<open>The calendar\<close>

lemma days_before_year_Suc:
  "1 \<le> y \<Longrightarrow> days_before_year (Suc y) = days_before_year y + year_days y"
  by (simp add: days_before_year_def)

lemma days_before_year_mono: "a \<le> b \<Longrightarrow> days_before_year a \<le> days_before_year b"
proof (induction b)
  case 0
  then show ?case by simp
next
  case (Suc b)
  show ?case
  proof (cases "a = Suc b")
    case True
    then show ?thesis by simp
  next
    case False
    with Suc have le: "days_before_year a \<le> days_before_year b" by simp
    show ?thesis
    proof (cases "1 \<le> b")
      case True
      with le show ?thesis by (simp add: days_before_year_Suc)
    next
      case False
      with \<open>a \<le> Suc b\<close> \<open>a \<noteq> Suc b\<close> show ?thesis
        by (simp add: days_before_year_def)
    qed
  qed
qed

lemma days_before_month_Suc:
  "1 \<le> m \<Longrightarrow> days_before_month y (Suc m) = days_before_month y m + days_in_month y m"
  by (simp add: days_before_month_def)

lemma days_before_month_mono: "a \<le> b \<Longrightarrow> days_before_month y a \<le> days_before_month y b"
proof (induction b)
  case 0
  then show ?case by simp
next
  case (Suc b)
  show ?case
  proof (cases "a = Suc b")
    case True
    then show ?thesis by simp
  next
    case False
    with Suc have le: "days_before_month y a \<le> days_before_month y b" by simp
    show ?thesis
    proof (cases "1 \<le> b")
      case True
      with le show ?thesis by (simp add: days_before_month_Suc)
    next
      case False
      with \<open>a \<le> Suc b\<close> \<open>a \<noteq> Suc b\<close> show ?thesis
        by (simp add: days_before_month_def)
    qed
  qed
qed

lemma days_before_month_table:
  "days_before_month y 1 = 0"
  "days_before_month y 2 = 31"
  "days_before_month y 3 = 31 + days_in_month y 2"
  "days_before_month y 4 = 62 + days_in_month y 2"
  "days_before_month y 5 = 92 + days_in_month y 2"
  "days_before_month y 6 = 123 + days_in_month y 2"
  "days_before_month y 7 = 153 + days_in_month y 2"
  "days_before_month y 8 = 184 + days_in_month y 2"
  "days_before_month y 9 = 215 + days_in_month y 2"
  "days_before_month y 10 = 245 + days_in_month y 2"
  "days_before_month y 11 = 276 + days_in_month y 2"
  "days_before_month y 12 = 306 + days_in_month y 2"
  "days_before_month y 13 = 337 + days_in_month y 2"
  by (simp_all add: days_before_month_def upt_conv_Cons days_in_month_def)

lemma february: "days_in_month y 2 = (if is_leap y then 29 else 28)"
  by (simp add: days_in_month_def)

lemma year_days_months: "days_before_month y 13 = year_days y"
  by (simp add: days_before_month_table february year_days_def)

lemma days_in_month_pos: "Suc 0 \<le> days_in_month y m"
  by (simp add: days_in_month_def)

lemma days_before_month_first: "days_before_month y (Suc 0) = 0"
  by (simp add: days_before_month_def)

lemma days_in_month_le: "days_in_month y m \<le> 31"
  by (simp add: days_in_month_def)

lemma month_end_in_year:
  assumes "valid_date d"
  shows "days_before_month (year d) (month d) + day d \<le> year_days (year d)"
proof -
  from assms have m: "1 \<le> month d" "month d \<le> 12" and
    dd: "day d \<le> days_in_month (year d) (month d)"
    by (simp_all add: valid_date_def)
  have "days_before_month (year d) (month d) + day d
      \<le> days_before_month (year d) (Suc (month d))"
    using m dd by (simp add: days_before_month_Suc)
  also have "\<dots> \<le> days_before_month (year d) 13"
    using m by (intro days_before_month_mono) simp
  finally show ?thesis by (simp add: year_days_months)
qed

lemma toordinal_less:
  assumes a: "valid_date a" and b: "valid_date b" and less: "date_less a b"
  shows "toordinal a < toordinal b"
proof -
  from a b have pos: "1 \<le> day a" "1 \<le> day b" "1 \<le> year a" "1 \<le> month a"
    "day a \<le> days_in_month (year a) (month a)"
    by (simp_all add: valid_date_def)
  consider (y) "year a < year b"
    | (m) "year a = year b" "month a < month b"
    | (d) "year a = year b" "month a = month b" "day a < day b"
    using less by (auto simp: date_less_def)
  then show ?thesis
  proof cases
    case y
    have "toordinal a \<le> days_before_year (year a) + year_days (year a)"
      using month_end_in_year [OF a] by (simp add: toordinal_def)
    also have "\<dots> = days_before_year (Suc (year a))"
      using pos by (simp add: days_before_year_Suc)
    also have "\<dots> \<le> days_before_year (year b)"
      using y by (intro days_before_year_mono) simp
    also have "\<dots> < toordinal b"
      using pos by (simp add: toordinal_def)
    finally show ?thesis .
  next
    case m
    have "days_before_month (year a) (month a) + day a
        \<le> days_before_month (year a) (Suc (month a))"
      using pos by (simp add: days_before_month_Suc)
    also have "\<dots> \<le> days_before_month (year a) (month b)"
      using m by (intro days_before_month_mono) simp
    finally show ?thesis
      using m pos by (simp add: toordinal_def)
  next
    case d
    then show ?thesis by (simp add: toordinal_def)
  qed
qed

lemma date_less_total: "a \<noteq> b \<Longrightarrow> date_less a b \<or> date_less b a"
  by (cases a; cases b) (auto simp: date_less_def)

lemma toordinal_inj:
  assumes "valid_date a" "valid_date b" "toordinal a = toordinal b"
  shows "a = b"
proof (rule ccontr)
  assume "a \<noteq> b"
  then have "date_less a b \<or> date_less b a" by (rule date_less_total)
  with assms toordinal_less [of a b] toordinal_less [of b a] show False by auto
qed

lemma toordinal_less_imp_date_less:
  assumes "valid_date a" "valid_date b" "toordinal a < toordinal b"
  shows "date_less a b"
proof (rule ccontr)
  assume n: "\<not> date_less a b"
  have "a \<noteq> b" using assms(3) by auto
  with n have "date_less b a" using date_less_total by blast
  with assms toordinal_less [of b a] show False by simp
qed

lemma toordinal_first: "toordinal (Date 1 1 1) = 1"
  by (simp add: toordinal_def days_before_year_def days_before_month_def)

lemma valid_last: "valid_date (Date 9999 12 31)"
  by (simp add: valid_date_def days_in_month_def)

lemma prev_day_step:
  assumes v: "valid_date d" and ne: "d \<noteq> Date 1 1 1"
  shows "valid_date (prev_day d) \<and> Suc (toordinal (prev_day d)) = toordinal d"
proof -
  obtain y m k where d: "d = Date y m k" by (cases d)
  from v d have b: "1 \<le> y" "y \<le> 9999" "1 \<le> m" "m \<le> 12" "1 \<le> k" "k \<le> days_in_month y m"
    by (simp_all add: valid_date_def)
  consider (day) "1 < k" | (month) "k = 1" "1 < m" | (year) "k = 1" "m = 1"
    using b by linarith
  then show ?thesis
  proof cases
    case day
    with b d show ?thesis
      by (auto simp: prev_day_def valid_date_def toordinal_def)
  next
    case month
    then obtain m' where m': "m = Suc m'" "1 \<le> m'" by (cases m) auto
    have "days_before_month y m = days_before_month y m' + days_in_month y m'"
      using m' by (simp add: days_before_month_Suc)
    with month m' b d show ?thesis
      by (simp add: prev_day_def valid_date_def toordinal_def days_in_month_pos)
  next
    case year
    with ne d b obtain y' where y': "y = Suc y'" "1 \<le> y'" by (cases y) auto
    have "days_before_year y = days_before_year y' + year_days y'"
      using y' by (simp add: days_before_year_Suc)
    moreover have "days_before_month y' 12 + 31 = year_days y'"
      by (simp add: days_before_month_table february year_days_def)
    moreover have "days_before_month y 1 = 0"
      by (simp add: days_before_month_first)
    ultimately show ?thesis
      using year y' b d
      by (simp add: prev_day_def valid_date_def toordinal_def days_in_month_def)
  qed
qed

lemma next_day_step:
  assumes v: "valid_date d" and ne: "d \<noteq> Date 9999 12 31"
  shows "valid_date (next_day d) \<and> toordinal (next_day d) = Suc (toordinal d)"
proof -
  obtain y m k where d: "d = Date y m k" by (cases d)
  from v d have b: "1 \<le> y" "y \<le> 9999" "1 \<le> m" "m \<le> 12" "1 \<le> k" "k \<le> days_in_month y m"
    by (simp_all add: valid_date_def)
  consider (day) "k < days_in_month y m"
    | (month) "k = days_in_month y m" "m < 12"
    | (year) "k = days_in_month y m" "m = 12"
    using b by linarith
  then show ?thesis
  proof cases
    case day
    with b d show ?thesis
      by (simp add: next_day_def valid_date_def toordinal_def)
  next
    case month
    have "days_before_month y (Suc m) = days_before_month y m + days_in_month y m"
      using b by (simp add: days_before_month_Suc)
    with month b d show ?thesis
      by (simp add: next_day_def valid_date_def toordinal_def days_in_month_pos)
  next
    case year
    then have k: "k = 31" by (simp add: days_in_month_def)
    from year ne d k have "y \<noteq> 9999" by auto
    with b have y: "Suc y \<le> 9999" by simp
    have "days_before_year (Suc y) = days_before_year y + year_days y"
      using b by (simp add: days_before_year_Suc)
    moreover have "days_before_month y 12 + 31 = year_days y"
      by (simp add: days_before_month_table february year_days_def)
    moreover have "days_before_month (Suc y) 1 = 0"
      by (simp add: days_before_month_first)
    ultimately show ?thesis
      using year k y b d
      by (simp add: next_day_def valid_date_def toordinal_def days_in_month_def)
  qed
qed

lemma date_sub_ordinal:
  "valid_date d \<Longrightarrow> n < toordinal d \<Longrightarrow>
   \<exists>d'. date_sub d n = Some d' \<and> valid_date d' \<and> toordinal d' + n = toordinal d"
proof (induction n arbitrary: d)
  case 0
  then show ?case by simp
next
  case (Suc n)
  from Suc.prems have ne: "d \<noteq> Date 1 1 1"
    using toordinal_first by auto
  from prev_day_step [OF Suc.prems(1) ne]
  have p: "valid_date (prev_day d)" "Suc (toordinal (prev_day d)) = toordinal d" by simp_all
  with Suc.prems have "n < toordinal (prev_day d)" by simp
  from Suc.IH [OF p(1) this] obtain d' where
    "date_sub (prev_day d) n = Some d'" "valid_date d'"
    "toordinal d' + n = toordinal (prev_day d)" by blast
  with ne p show ?case by simp
qed

lemma toordinal_le_last:
  assumes "valid_date d"
  shows "toordinal d \<le> toordinal (Date 9999 12 31)"
proof (cases "d = Date 9999 12 31")
  case True
  then show ?thesis by simp
next
  case False
  obtain y m k where d: "d = Date y m k" by (cases d)
  from assms d have "y \<le> 9999" "m \<le> 12" "k \<le> 31"
    using days_in_month_le [of y m] by (simp_all add: valid_date_def)
  with False d have "date_less d (Date 9999 12 31)"
    by (auto simp: date_less_def)
  from toordinal_less [OF assms valid_last this] show ?thesis by simp
qed

lemma date_add_ordinal:
  "valid_date d \<Longrightarrow> toordinal d + n \<le> toordinal (Date 9999 12 31) \<Longrightarrow>
   \<exists>d'. date_add d n = Some d' \<and> valid_date d' \<and> toordinal d' = toordinal d + n"
proof (induction n arbitrary: d)
  case 0
  then show ?case by simp
next
  case (Suc n)
  from Suc.prems have ne: "d \<noteq> Date 9999 12 31" by auto
  from next_day_step [OF Suc.prems(1) ne]
  have p: "valid_date (next_day d)" "toordinal (next_day d) = Suc (toordinal d)" by simp_all
  with Suc.prems have "toordinal (next_day d) + n \<le> toordinal (Date 9999 12 31)" by simp
  from Suc.IH [OF p(1) this] obtain d' where
    "date_add (next_day d) n = Some d'" "valid_date d'"
    "toordinal d' = toordinal (next_day d) + n" by blast
  with ne p show ?case by simp
qed

lemma toordinal_year_2:
  assumes "valid_date d" "1 < year d"
  shows "365 < toordinal d"
proof -
  have "days_before_year 2 \<le> days_before_year (year d)"
    using assms by (intro days_before_year_mono) simp
  moreover have "365 \<le> days_before_year 2"
    by (simp add: days_before_year_def upt_conv_Cons year_days_def)
  moreover have "1 \<le> day d" using assms by (simp add: valid_date_def)
  ultimately show ?thesis by (simp add: toordinal_def)
qed

section \<open>Dictionaries and grouped counts\<close>

lemma dict_set_absent: "k \<notin> fst ` set d \<Longrightarrow> dict_set k v d = d @ [(k, v)]"
  by (induction d) auto

lemma dict_set_present:
  "distinct (map fst d) \<Longrightarrow> k \<in> fst ` set d \<Longrightarrow>
   dict_set k v d = map (\<lambda>p. if fst p = k then (k, v) else p) d"
proof (induction d)
  case Nil
  then show ?case by simp
next
  case (Cons p ps)
  show ?case
  proof (cases "fst p = k")
    case True
    with Cons.prems have "k \<notin> fst ` set ps" by auto
    then have "map (\<lambda>p. if fst p = k then (k, v) else p) ps = ps"
      by (intro map_idI) auto
    with True show ?thesis by simp
  next
    case False
    with Cons show ?thesis by auto
  qed
qed

lemma replaced_keys:
  "map fst (map (\<lambda>p. if fst p = k then (k, c) else p) xs) = map fst xs"
  by (induction xs) auto

lemma zero_dict:
  "distinct ks \<Longrightarrow> set ks \<inter> fst ` set acc = {} \<Longrightarrow>
   fold (\<lambda>k. dict_set k (0::nat)) ks acc = acc @ map (\<lambda>k. (k, 0)) ks"
proof (induction ks arbitrary: acc)
  case Nil
  then show ?case by simp
next
  case (Cons k ks)
  from Cons.prems have k: "k \<notin> fst ` set acc" by auto
  from Cons.prems have "set ks \<inter> fst ` set (acc @ [(k, 0)]) = {}" by auto
  with Cons.IH [of "acc @ [(k, 0)]"] Cons.prems k show ?case
    by (simp add: dict_set_absent)
qed

lemma map_of_tabulate:
  "map_of (map (\<lambda>k. (k, f k)) xs) k = (if k \<in> set xs then Some (f k) else None)"
  by (induction xs) auto

lemma fill_counts_map:
  "distinct (map fst rows) \<Longrightarrow> distinct (map fst counts) \<Longrightarrow>
   fill_counts rows counts =
     map (\<lambda>p. (fst p, case map_of rows (fst p) of None \<Rightarrow> snd p | Some c \<Rightarrow> c)) counts"
proof (induction rows arbitrary: counts)
  case Nil
  then show ?case by simp
next
  case (Cons r rows)
  obtain k c where r: "r = (k, c)" by (cases r)
  from Cons.prems r have fresh: "k \<notin> fst ` set rows" and d: "distinct (map fst rows)"
    by auto
  then have none: "map_of rows k = None"
    by (simp add: map_of_eq_None_iff)
  show ?case
  proof (cases "k \<in> fst ` set counts")
    case True
    let ?c' = "map (\<lambda>p. if fst p = k then (k, c) else p) counts"
    have upd: "dict_set k c counts = ?c'"
      using Cons.prems(2) True by (rule dict_set_present)
    have keys: "map fst ?c' = map fst counts"
      by (rule replaced_keys)
    have "distinct (map fst ?c')"
      using Cons.prems(2) by (simp only: keys)
    from Cons.IH [OF d this] True upd r none show ?thesis
      by (auto simp: comp_def)
  next
    case False
    then have "\<forall>p \<in> set counts. fst p \<noteq> k" by auto
    with Cons.IH [OF d Cons.prems(2)] False r show ?thesis
      by auto
  qed
qed

lemma group_count_keys: "distinct (map fst (group_count ks))"
  by (simp add: group_count_def comp_def)

lemma map_of_group_count:
  "map_of (group_count ks) k = (if k \<in> set ks then Some (count_list ks k) else None)"
  by (simp add: group_count_def map_of_tabulate)

lemma fill_group_count:
  assumes "distinct K"
  shows "fill_counts (group_count ks) (map (\<lambda>k. (k, 0)) K) = map (\<lambda>k. (k, count_list ks k)) K"
proof -
  have "distinct (map fst (map (\<lambda>k. (k, 0::nat)) K))"
    using assms by (simp add: comp_def)
  from fill_counts_map [OF group_count_keys this] show ?thesis
    by (simp add: comp_def map_of_group_count)
qed

lemma count_map_filter:
  "count_list (List.map_filter f xs) k = length (filter (\<lambda>e. f e = Some k) xs)"
  by (induction xs) (auto simp: map_filter_simps split: option.splits)

lemma length_filter_disjoint:
  "(\<And>x. x \<in> set xs \<Longrightarrow> \<not> (A x \<and> B x)) \<Longrightarrow>
   length (filter A xs) + length (filter B xs) = length (filter (\<lambda>x. A x \<or> B x) xs)"
  by (induction xs) auto

lemma sum_counts:
  "distinct ks \<Longrightarrow>
   sum_list (map (\<lambda>k. length (filter (\<lambda>e. P e \<and> g e = Some k) xs)) ks)
     = length (filter (\<lambda>e. P e \<and> g e \<in> Some ` set ks) xs)"
proof (induction ks)
  case Nil
  then show ?case by simp
next
  case (Cons k ks)
  then have k: "k \<notin> set ks" and d: "distinct ks" by simp_all
  have "length (filter (\<lambda>e. P e \<and> g e = Some k) xs)
        + length (filter (\<lambda>e. P e \<and> g e \<in> Some ` set ks) xs)
      = length (filter (\<lambda>e. (P e \<and> g e = Some k) \<or> (P e \<and> g e \<in> Some ` set ks)) xs)"
    using k by (intro length_filter_disjoint) auto
  also have "\<dots> = length (filter (\<lambda>e. P e \<and> g e \<in> Some ` set (k # ks)) xs)"
    by (intro arg_cong [where f = length] filter_cong) auto
  finally show ?case using Cons.IH [OF d] by simp
qed

section \<open>ISO dates\<close>

lemma isoformat_digits:
  assumes "valid_date d"
  shows "isoformat d =
    digits_k 4 (year d) @ ''-'' @ digits_k 2 (month d) @ ''-'' @ digits_k 2 (day d)"
proof -
  from assms have "year d < 10 ^ 4" "month d < 10 ^ 2" "day d < 10 ^ 2"
    using days_in_month_le [of "year d" "month d"] by (simp_all add: valid_date_def)
  then show ?thesis
    by (simp add: isoformat_def fmt_d_digits)
qed

lemma isoformat_less:
  assumes a: "valid_date a" and b: "valid_date b" and less: "date_less a b"
  shows "isoformat a < isoformat b"
proof -
  from b have bounds: "year b < 10 ^ 4" "month b < 10 ^ 2" "day b < 10 ^ 2"
    using days_in_month_le [of "year b" "month b"] by (simp_all add: valid_date_def)
  consider (y) "year a < year b"
    | (m) "year a = year b" "month a < month b"
    | (d) "year a = year b" "month a = month b" "day a < day b"
    using less by (auto simp: date_less_def)
  then show ?thesis
  proof cases
    case y
    with bounds have "digits_k 4 (year a) < digits_k 4 (year b)"
      by (intro digits_k_less)
    then show ?thesis
      by (simp only: isoformat_digits [OF a] isoformat_digits [OF b] append_less_iff
          length_digits_k simp_thms)
  next
    case m
    with bounds have "digits_k 2 (month a) < digits_k 2 (month b)"
      by (intro digits_k_less)
    then have "''-'' @ digits_k 2 (month a) @ ''-'' @ digits_k 2 (day a)
        < ''-'' @ digits_k 2 (month b) @ ''-'' @ digits_k 2 (day b)"
      by (simp add: append_less_iff length_digits_k)
    with m show ?thesis
      by (simp only: isoformat_digits [OF a] isoformat_digits [OF b] append_less_iff
          length_digits_k simp_thms)
  next
    case d
    with bounds have "digits_k 2 (day a) < digits_k 2 (day b)"
      by (intro digits_k_less)
    then have "''-'' @ digits_k 2 (month b) @ ''-'' @ digits_k 2 (day a)
        < ''-'' @ digits_k 2 (month b) @ ''-'' @ digits_k 2 (day b)"
      by (simp add: append_less_iff length_digits_k)
    with d show ?thesis
      by (simp only: isoformat_digits [OF a] isoformat_digits [OF b] append_less_iff
          length_digits_k simp_thms)
  qed
qed

section \<open>The trailing 30 days\<close>

lemma those_map_Some:
  "(\<And>x. x \<in> set xs \<Longrightarrow> f x = Some (g x)) \<Longrightarrow> those (map f xs) = Some (map g xs)"
  by (induction xs) simp_all

lemma window_days:
  assumes v: "valid_date today" and y: "1 < year today"
  shows "\<exists>start days.
    date_sub today 29 = Some start
    \<and> those (map (date_add start) [0..<30]) = Some days
    \<and> those (map (\<lambda>i. date_sub today (29 - i)) [0..<30]) = Some days
    \<and> length days = 30
    \<and> (\<forall>i<30. valid_date (days ! i) \<and> toordinal (days ! i) + 29 = toordinal today + i)
    \<and> days ! 0 = start"
proof -
  have big: "365 < toordinal today" using v y by (rule toordinal_year_2)
  then have "29 < toordinal today" by simp
  from date_sub_ordinal [OF v this] obtain start where
    start: "date_sub today 29 = Some start" "valid_date start"
      "toordinal start + 29 = toordinal today" by blast
  define g where "g i = the (date_add start i)" for i
  have step: "date_add start i = Some (g i) \<and> date_sub today (29 - i) = Some (g i)
      \<and> valid_date (g i) \<and> toordinal (g i) + 29 = toordinal today + i" if i: "i < 30" for i
  proof -
    have "toordinal start + i \<le> toordinal today" using start(3) i by simp
    also have "\<dots> \<le> toordinal (Date 9999 12 31)" using v by (rule toordinal_le_last)
    finally have "toordinal start + i \<le> toordinal (Date 9999 12 31)" .
    from date_add_ordinal [OF start(2) this] obtain d where
      d: "date_add start i = Some d" "valid_date d" "toordinal d = toordinal start + i"
      by blast
    have "29 - i < toordinal today" using big by simp
    from date_sub_ordinal [OF v this] obtain d' where
      d': "date_sub today (29 - i) = Some d'" "valid_date d'"
        "toordinal d' + (29 - i) = toordinal today" by blast
    have "toordinal d = toordinal d'" using d(3) d'(3) start(3) i by simp
    with d(2) d'(2) have "d = d'" by (rule toordinal_inj)
    with d d' start(3) show ?thesis by (simp add: g_def)
  qed
  have a: "those (map (date_add start) [0..<30]) = Some (map g [0..<30])"
    by (rule those_map_Some) (simp add: step)
  have b: "those (map (\<lambda>i. date_sub today (29 - i)) [0..<30]) = Some (map g [0..<30])"
    by (rule those_map_Some) (simp add: step)
  have c: "\<forall>i<30. valid_date (map g [0..<30] ! i)
      \<and> toordinal (map g [0..<30] ! i) + 29 = toordinal today + i"
    using step by simp
  have "g 0 = start" by (simp add: g_def)
  then have d: "map g [0..<30] ! 0 = start" by simp
  from start(1) a b c d show ?thesis
    by (intro exI [of _ start] exI [of _ "map g [0..<30]"]) simp
qed

lemma window_keys_sorted:
  assumes "length days = n"
    and "\<forall>i<n. valid_date (days ! i) \<and> toordinal (days ! i) + c = t + i"
  shows "sorted_wrt (<) (map isoformat days)"
proof -
  have "isoformat (days ! i) < isoformat (days ! j)" if "i < j" "j < n" for i j
  proof -
    from that have "i < n" by simp
    with assms(2) have vi: "valid_date (days ! i)"
      and oi: "toordinal (days ! i) + c = t + i" by simp_all
    from that assms(2) have vj: "valid_date (days ! j)"
      and oj: "toordinal (days ! j) + c = t + j" by simp_all
    from oi oj that have "toordinal (days ! i) < toordinal (days ! j)" by linarith
    with vi vj show ?thesis
      by (intro isoformat_less toordinal_less_imp_date_less)
  qed
  with assms(1) show ?thesis
    by (simp add: sorted_wrt_iff_nth_less)
qed

section \<open>Counts per day\<close>

lemma sorted_first_le:
  fixes ks :: "string list"
  assumes "sorted_wrt (<) ks" "k \<in> set ks"
  shows "ks ! 0 \<le> k"
proof -
  from assms(2) obtain i where i: "i < length ks" "ks ! i = k"
    by (auto simp: in_set_conv_nth)
  show ?thesis
  proof (cases i)
    case 0
    with i show ?thesis by simp
  next
    case (Suc j)
    from assms(1) have "\<forall>a b. a < b \<longrightarrow> b < length ks \<longrightarrow> ks ! a < ks ! b"
      by (simp only: sorted_wrt_iff_nth_less)
    with Suc i have "ks ! 0 < ks ! i" by blast
    with i show ?thesis by simp
  qed
qed

lemma prefix_reaches_start:
  assumes "ts_prefix n e = Some k" "s \<le> k"
  shows "sql_ge (timestamp e) s"
proof -
  from assms(1) obtain t where t: "timestamp e = Some t" "take n t = k"
    by (auto simp: ts_prefix_def)
  have "k \<le> t" using t(2) take_le_self [of n t] by simp
  with assms(2) have "s \<le> t" by (rule order_trans)
  with t show ?thesis by (simp add: sql_ge_def)
qed

lemma filled_counts:
  assumes d: "distinct keys"
    and reach: "\<And>e k. k \<in> set keys \<Longrightarrow> P e \<Longrightarrow> ts_prefix n e = Some k \<Longrightarrow> Q e"
  shows "fill_counts
      (group_count (List.map_filter (\<lambda>e. if P e \<and> Q e then ts_prefix n e else None) xs))
      (fold (\<lambda>k. dict_set k 0) keys [])
    = map (\<lambda>k. (k, length (filter (\<lambda>e. P e \<and> ts_prefix n e = Some k) xs))) keys"
proof -
  let ?f = "\<lambda>e. if P e \<and> Q e then ts_prefix n e else None"
  have zero: "fold (\<lambda>k. dict_set k (0::nat)) keys [] = map (\<lambda>k. (k, 0)) keys"
    using zero_dict [OF d, of "[]"] by simp
  have cnt: "count_list (List.map_filter ?f xs) k
      = length (filter (\<lambda>e. P e \<and> ts_prefix n e = Some k) xs)" if "k \<in> set keys" for k
  proof -
    have "(?f e = Some k) = (P e \<and> ts_prefix n e = Some k)" for e
      using reach [OF that, of e] by auto
    then show ?thesis by (simp add: count_map_filter)
  qed
  show ?thesis
    unfolding zero fill_group_count [OF d]
    by (rule map_cong [OF refl]) (simp add: cnt)
qed

lemma daily_counts_result:
  assumes v: "valid_date today" and y: "1 < year today"
  shows "\<exists>dc days.
    daily_counts today u st = Some dc
    \<and> those (map (\<lambda>i. date_sub today (29 - i)) [0..<30]) = Some days
    \<and> length dc = 30
    \<and> map fst dc = map isoformat days
    \<and> sorted_wrt (<) (map fst dc)
    \<and> map snd dc =
        map (\<lambda>k. length (filter (\<lambda>e. involves u e \<and> ts_prefix 10 e = Some k) (emails st)))
          (map fst dc)
    \<and> sum_list (map snd dc) =
        length (filter (\<lambda>e. involves u e \<and> ts_prefix 10 e \<in> Some ` set (map fst dc))
          (emails st))"
proof -
  from window_days [OF v y] obtain start days where
    w: "date_sub today 29 = Some start"
      "those (map (date_add start) [0..<30]) = Some days"
      "those (map (\<lambda>i. date_sub today (29 - i)) [0..<30]) = Some days"
      "length days = 30"
      "\<forall>i<30. valid_date (days ! i) \<and> toordinal (days ! i) + 29 = toordinal today + i"
      "days ! 0 = start"
    by blast
  let ?keys = "map isoformat days"
  let ?count = "\<lambda>k. length (filter (\<lambda>e. involves u e \<and> ts_prefix 10 e = Some k) (emails st))"
  let ?dc = "map (\<lambda>k. (k, ?count k)) ?keys"
  have sorted: "sorted_wrt (<) ?keys"
    using w(4) w(5) by (rule window_keys_sorted)
  then have dist: "distinct ?keys"
    by (simp add: strict_sorted_iff)
  have first: "?keys ! 0 = isoformat start"
    using w(4) w(6) by simp
  have reach: "sql_ge (timestamp e) (isoformat start)"
    if "k \<in> set ?keys" "involves u e" "ts_prefix 10 e = Some k" for e k
    using that(3) sorted_first_le [OF sorted that(1)] first
    by (intro prefix_reaches_start [of 10 e k]) simp_all
  have "fold (\<lambda>d. dict_set (isoformat d) (0::nat)) days []
      = fold (\<lambda>k. dict_set k 0) ?keys []"
    by (simp add: fold_map comp_def)
  moreover have "fill_counts
      (group_count (List.map_filter
         (\<lambda>e. if involves u e \<and> sql_ge (timestamp e) (isoformat start)
              then ts_prefix 10 e else None)
         (emails st)))
      (fold (\<lambda>k. dict_set k 0) ?keys []) = ?dc"
    by (rule filled_counts [OF dist]) (rule reach; assumption)
  ultimately have run: "daily_counts today u st = Some ?dc"
    by (simp add: daily_counts_def w(1) w(2) day_rows_def)
  have keys: "map fst ?dc = ?keys" by (simp add: comp_def)
  have vals: "map snd ?dc = map ?count ?keys" by (simp add: comp_def)
  have total: "sum_list (map ?count ?keys)
      = length (filter (\<lambda>e. involves u e \<and> ts_prefix 10 e \<in> Some ` set ?keys) (emails st))"
    using dist by (rule sum_counts)
  show ?thesis
    apply (rule exI [of _ ?dc])
    apply (rule exI [of _ days])
    apply (simp only: keys vals run w(3) sorted total)
    apply (simp add: w(4))
    done
qed

section \<open>The trailing six months\<close>

declare wrap_month.simps [simp del]

lemma wrap_month_window:
  assumes "1 \<le> y" "1 \<le> m" "m \<le> 12" "i \<le> 5"
  shows "wrap_month (int y) (int m - int i)
    = (int (fst (months_before y m i)), int (snd (months_before y m i)))"
proof (cases "m \<le> i")
  case True
  then have "int m - int i \<le> 0" by simp
  then have "wrap_month (int y) (int m - int i) = wrap_month (int y - 1) (int m - int i + 12)"
    by (subst wrap_month.simps) simp
  also have "\<dots> = (int y - 1, int m - int i + 12)"
    using assms by (subst wrap_month.simps) simp
  finally show ?thesis
    using True assms by (simp add: months_before_def)
next
  case False
  then have "\<not> int m - int i \<le> 0" by simp
  then have "wrap_month (int y) (int m - int i) = (int y, int m - int i)"
    by (subst wrap_month.simps) simp
  with False show ?thesis
    by (simp add: months_before_def)
qed

lemma months_before_bounds:
  assumes "1 \<le> y" "y \<le> 9999" "1 \<le> m" "m \<le> 12" "i \<le> 5"
  shows "fst (months_before y m i) < 10 ^ 4" "snd (months_before y m i) < 10 ^ 2"
    "1 \<le> snd (months_before y m i)" "snd (months_before y m i) \<le> 12"
  using assms by (auto simp: months_before_def)

lemma month_key_window:
  assumes v: "valid_date today" and i: "i \<le> 5"
  shows "month_key today (int i) = ym_key (months_before (year today) (month today) i)"
proof -
  from v have b: "1 \<le> year today" "year today \<le> 9999" "1 \<le> month today" "month today \<le> 12"
    by (simp_all add: valid_date_def)
  note mb = months_before_bounds [OF b i]
  show ?thesis
    using mb by (simp add: month_key_def wrap_month_window [OF b(1) b(3) b(4) i]
        ym_key_def fmt_d_digits)
qed

lemma month_keys_window:
  assumes v: "valid_date today"
  shows "month_keys today
    = map (\<lambda>i. ym_key (months_before (year today) (month today) i)) [5, 4, 3, 2, 1, 0]"
proof -
  have "month_key today 5 = ym_key (months_before (year today) (month today) 5)"
    "month_key today 4 = ym_key (months_before (year today) (month today) 4)"
    "month_key today 3 = ym_key (months_before (year today) (month today) 3)"
    "month_key today 2 = ym_key (months_before (year today) (month today) 2)"
    "month_key today 1 = ym_key (months_before (year today) (month today) 1)"
    "month_key today 0 = ym_key (months_before (year today) (month today) 0)"
    using month_key_window [OF v, of 5] month_key_window [OF v, of 4]
      month_key_window [OF v, of 3] month_key_window [OF v, of 2]
      month_key_window [OF v, of 1] month_key_window [OF v, of 0]
    by simp_all
  then show ?thesis by (simp add: month_keys_def)
qed

lemma ym_key_less:
  assumes "fst a < fst b \<or> fst a = fst b \<and> snd a < snd b"
    and "fst b < 10 ^ 4" "snd b < 10 ^ 2"
  shows "ym_key a < ym_key b"
proof -
  consider (y) "fst a < fst b" | (m) "fst a = fst b" "snd a < snd b"
    using assms(1) by blast
  then show ?thesis
  proof cases
    case y
    with assms(2) have "digits_k 4 (fst a) < digits_k 4 (fst b)"
      by (intro digits_k_less)
    then show ?thesis
      by (simp add: ym_key_def append_less_iff length_digits_k)
  next
    case m
    with assms(3) have "digits_k 2 (snd a) < digits_k 2 (snd b)"
      by (intro digits_k_less)
    with m show ?thesis
      by (simp add: ym_key_def append_less_iff length_digits_k)
  qed
qed

lemma months_before_less:
  assumes "1 \<le> y" "y \<le> 9999" "1 \<le> m" "m \<le> 12" "i \<le> 5" "j < i"
  shows "ym_key (months_before y m i) < ym_key (months_before y m j)"
proof (rule ym_key_less)
  from assms have "j \<le> 5" by simp
  from months_before_bounds [OF assms(1-4) this]
  show "fst (months_before y m j) < 10 ^ 4" "snd (months_before y m j) < 10 ^ 2"
    by simp_all
  show "fst (months_before y m i) < fst (months_before y m j)
      \<or> fst (months_before y m i) = fst (months_before y m j)
        \<and> snd (months_before y m i) < snd (months_before y m j)"
    using assms by (auto simp: months_before_def)
qed

lemma month_keys_sorted:
  assumes v: "valid_date today"
  shows "sorted_wrt (<) (month_keys today)"
proof -
  from v have b: "1 \<le> year today" "year today \<le> 9999" "1 \<le> month today" "month today \<le> 12"
    by (simp_all add: valid_date_def)
  note less = months_before_less [OF b]
  show ?thesis
    unfolding month_keys_window [OF v]
    by (simp add: less)
qed

lemma five_months_span:
  assumes "1 < y" "1 \<le> m" "m \<le> 12"
  shows "toordinal (Date y m 1)
    \<le> toordinal (Date (fst (months_before y m 5)) (snd (months_before y m 5)) 1) + 153"
proof -
  obtain y' where y': "y = Suc y'" "1 \<le> y'"
    using assms(1) by (cases y) auto
  have dby: "days_before_year (Suc y') = days_before_year y' + year_days y'"
    using y'(2) by (rule days_before_year_Suc)
  from assms have "m = 1 \<or> m = 2 \<or> m = 3 \<or> m = 4 \<or> m = 5 \<or> m = 6 \<or> m = 7 \<or> m = 8
      \<or> m = 9 \<or> m = 10 \<or> m = 11 \<or> m = 12"
    by arith
  then show ?thesis
    unfolding y'(1)
    by (elim disjE)
      (simp_all add: toordinal_def months_before_def dby days_before_month_table
        days_before_month_first february year_days_def)
qed

lemma take_month_key:
  assumes "valid_date c"
  shows "take 7 (isoformat c) = ym_key (year c, month c)"
  by (simp add: isoformat_digits [OF assms] ym_key_def length_digits_k)

lemma cutoff_before_window:
  assumes v: "valid_date today" and y: "1 < year today"
  shows "\<exists>c. date_sub (Date (year today) (month today) 1) 180 = Some c
    \<and> take 7 (isoformat c) < ym_key (months_before (year today) (month today) 5)"
proof -
  let ?first = "Date (year today) (month today) 1"
  let ?mb = "months_before (year today) (month today) 5"
  let ?F = "Date (fst ?mb) (snd ?mb) 1"
  from v have b: "1 \<le> year today" "year today \<le> 9999" "1 \<le> month today" "month today \<le> 12"
    by (simp_all add: valid_date_def)
  have vfirst: "valid_date ?first"
    using b by (simp add: valid_date_def days_in_month_pos)
  have "365 < toordinal ?first"
    using vfirst y by (intro toordinal_year_2) simp_all
  then have "180 < toordinal ?first" by simp
  from date_sub_ordinal [OF vfirst this] obtain c where
    c: "date_sub ?first 180 = Some c" "valid_date c" "toordinal c + 180 = toordinal ?first"
    by blast
  note mb = months_before_bounds [OF b, of 5]
  have "1 \<le> fst ?mb"
    using y by (cases "month today \<le> 5"; simp add: months_before_def; linarith)
  moreover have "fst ?mb \<le> 9999"
    using b by (cases "month today \<le> 5"; simp add: months_before_def; linarith)
  ultimately have vF: "valid_date ?F"
    using mb by (simp add: valid_date_def days_in_month_pos)
  have "toordinal ?first \<le> toordinal ?F + 153"
    using y b by (intro five_months_span)
  with c(3) have "toordinal c < toordinal ?F" by simp
  with c(2) vF have "date_less c ?F" by (rule toordinal_less_imp_date_less)
  moreover have "1 \<le> day c" using c(2) by (simp add: valid_date_def)
  ultimately have "year c < fst ?mb \<or> year c = fst ?mb \<and> month c < snd ?mb"
    by (auto simp: date_less_def)
  then have "ym_key (year c, month c) < ym_key ?mb"
    using mb by (intro ym_key_less) simp_all
  with c(1) c(2) show ?thesis
    by (simp add: take_month_key)
qed

lemma prefix_beyond_cutoff:
  assumes "ts_prefix n e = Some k" "take n s < k"
  shows "sql_ge (timestamp e) s"
proof -
  from assms(1) obtain t where t: "timestamp e = Some t" "take n t = k"
    by (auto simp: ts_prefix_def)
  with assms(2) have "take n s < take n t" by simp
  then have "s < t" by (rule less_of_take_less)
  with t show ?thesis by (simp add: sql_ge_def)
qed

lemma monthly_spam_counts_result:
  assumes v: "valid_date today" and y: "1 < year today"
  shows "\<exists>mc.
    monthly_spam_counts today u st = Some mc
    \<and> length mc = 6
    \<and> map fst mc
        = map (\<lambda>i. ym_key (months_before (year today) (month today) i)) [5, 4, 3, 2, 1, 0]
    \<and> sorted_wrt (<) (map fst mc)
    \<and> map snd mc =
        map (\<lambda>k. length (filter
                 (\<lambda>e. (involves u e \<and> is_spam e = Some 1) \<and> ts_prefix 7 e = Some k)
                 (emails st)))
          (map fst mc)"
proof -
  from cutoff_before_window [OF v y] obtain c where
    c: "date_sub (Date (year today) (month today) 1) 180 = Some c"
      "take 7 (isoformat c) < ym_key (months_before (year today) (month today) 5)"
    by blast
  let ?keys = "month_keys today"
  let ?P = "\<lambda>e. involves u e \<and> is_spam e = Some 1"
  let ?count = "\<lambda>k. length (filter (\<lambda>e. ?P e \<and> ts_prefix 7 e = Some k) (emails st))"
  let ?mc = "map (\<lambda>k. (k, ?count k)) ?keys"
  have sorted: "sorted_wrt (<) ?keys"
    using v by (rule month_keys_sorted)
  then have dist: "distinct ?keys"
    by (simp add: strict_sorted_iff)
  have first: "?keys ! 0 = ym_key (months_before (year today) (month today) 5)"
    by (simp add: month_keys_window [OF v])
  have reach: "sql_ge (timestamp e) (isoformat c)"
    if "k \<in> set ?keys" "?P e" "ts_prefix 7 e = Some k" for e k
  proof -
    from sorted_first_le [OF sorted that(1)] first c(2)
    have "take 7 (isoformat c) < k" by simp
    with that(3) show ?thesis by (rule prefix_beyond_cutoff)
  qed
  have "fill_counts
      (group_count (List.map_filter
         (\<lambda>e. if ?P e \<and> sql_ge (timestamp e) (isoformat c) then ts_prefix 7 e else None)
         (emails st)))
      (fold (\<lambda>k. dict_set k 0) ?keys []) = ?mc"
    by (rule filled_counts [OF dist]) (rule reach; assumption)
  with c(1) have run: "monthly_spam_counts today u st = Some ?mc"
    by (simp add: monthly_spam_counts_def month_rows_def conj_assoc)
  have keys: "map fst ?mc = ?keys" by (simp add: comp_def)
  have vals: "map snd ?mc = map ?count ?keys" by (simp add: comp_def)
  have len: "length ?keys = 6" by (simp add: month_keys_def)
  show ?thesis
    apply (rule exI [of _ ?mc])
    apply (simp only: keys vals run sorted)
    apply (simp add: len month_keys_window [OF v])
    done
qed

section \<open>Analytics results\<close>

text \<open>
  C3. On any day \<open>today\<close> of the year 2 or later (where the date arithmetic cannot
  leave the range of Python's dates), for every user and store, the analytics window
  returns and \<open>date_counts\<close> has exactly 30 entries. Their keys are the ISO dates of the
  days 29 days before \<open>today\<close> up to \<open>today\<close> itself, one per day and in strictly
  ascending order; the value of a key is the number of messages that the user sent or
  received and whose timestamp starts with that date, zero where there is none; and the
  30 values add up to the number of the user's messages whose timestamp date is one of
  the 30 days.
\<close>

theorem daily_counts_window:
  assumes "valid_date today" and "1 < year today"
  shows "\<exists>dc mc days.
    open_analytics today u st = Some (dc, mc)
    \<and> those (map (\<lambda>i. date_sub today (29 - i)) [0..<30]) = Some days
    \<and> length dc = 30
    \<and> map fst dc = map isoformat days
    \<and> sorted_wrt (<) (map fst dc)
    \<and> map snd dc =
        map (\<lambda>k. length (filter (\<lambda>e. involves u e \<and> ts_prefix 10 e = Some k) (emails st)))
          (map fst dc)
    \<and> sum_list (map snd dc) =
        length (filter (\<lambda>e. involves u e \<and> ts_prefix 10 e \<in> Some ` set (map fst dc))
          (emails st))"
proof -
  from daily_counts_result [OF assms, of u st] obtain dc days where
    dc: "daily_counts today u st = Some dc"
      "those (map (\<lambda>i. date_sub today (29 - i)) [0..<30]) = Some days"
      "length dc = 30"
      "map fst dc = map isoformat days"
      "sorted_wrt (<) (map fst dc)"
      "map snd dc =
        map (\<lambda>k. length (filter (\<lambda>e. involves u e \<and> ts_prefix 10 e = Some k) (emails st)))
          (map fst dc)"
      "sum_list (map snd dc) =
        length (filter (\<lambda>e. involves u e \<and> ts_prefix 10 e \<in> Some ` set (map fst dc))
          (emails st))"
    by (elim exE conjE) (rule that; assumption)
  from monthly_spam_counts_result [OF assms, of u st] obtain mc where
    mc: "monthly_spam_counts today u st = Some mc"
    by (elim exE conjE) (rule that; assumption)
  have oa: "open_analytics today u st = Some (dc, mc)"
    by (simp add: open_analytics_def dc(1) mc)
  show ?thesis
    apply (rule exI [of _ dc])
    apply (rule exI [of _ mc])
    apply (rule exI [of _ days])
    apply (intro conjI)
          apply (fact oa dc)+
    done
qed

theorem daily_counts_window_witness:
  "valid_date (Date 2024 5 10) \<and> 1 < year (Date 2024 5 10)
   \<and> map_option isoformat (date_sub (Date 2024 5 10) 29) = Some ''2024-04-11''
   \<and> (\<exists>dc mc days.
        open_analytics (Date 2024 5 10) ''bob'' demo_mail = Some (dc, mc)
        \<and> those (map (\<lambda>i. date_sub (Date 2024 5 10) (29 - i)) [0..<30]) = Some days
        \<and> length dc = 30
        \<and> map fst dc = map isoformat days
        \<and> sorted_wrt (<) (map fst dc)
        \<and> map snd dc =
            map (\<lambda>k. length (filter (\<lambda>e. involves ''bob'' e \<and> ts_prefix 10 e = Some k)
                   (emails demo_mail)))
              (map fst dc)
        \<and> sum_list (map snd dc) =
            length (filter (\<lambda>e. involves ''bob'' e \<and> ts_prefix 10 e \<in> Some ` set (map fst dc))
              (emails demo_mail)))"
proof -
  have v: "valid_date (Date 2024 5 10)"
    by (simp add: valid_date_def days_in_month_def)
  have y: "1 < year (Date 2024 5 10)"
    by simp
  have start: "map_option isoformat (date_sub (Date 2024 5 10) 29) = Some ''2024-04-11''"
    by code_simp
  show ?thesis
    by (intro conjI v y start daily_counts_window [OF v y])
qed

text \<open>
  C8. On any day \<open>today\<close> of the year 2 or later, for every user and store, the analytics
  window returns and \<open>month_counts\<close> has exactly 6 entries. Their keys are the \<open>YYYY-MM\<close>
  keys of the fifth month before the current one up to the current month, in strictly
  ascending order; the value of a key is the number of messages flagged as spam that the
  user sent or received and whose timestamp starts with that key, zero where there is
  none.
\<close>

theorem monthly_spam_counts_window:
  assumes "valid_date today" and "1 < year today"
  shows "\<exists>dc mc.
    open_analytics today u st = Some (dc, mc)
    \<and> length mc = 6
    \<and> map fst mc
        = map (\<lambda>i. ym_key (months_before (year today) (month today) i)) [5, 4, 3, 2, 1, 0]
    \<and> sorted_wrt (<) (map fst mc)
    \<and> map snd mc =
        map (\<lambda>k. length (filter
                 (\<lambda>e. involves u e \<and> is_spam e = Some 1 \<and> ts_prefix 7 e = Some k)
                 (emails st)))
          (map fst mc)"
proof -
  from daily_counts_result [OF assms, of u st] obtain dc where
    dc: "daily_counts today u st = Some dc"
    by (elim exE conjE) (rule that; assumption)
  from monthly_spam_counts_result [OF assms, of u st] obtain mc where
    mc: "monthly_spam_counts today u st = Some mc"
      "length mc = 6"
      "map fst mc
        = map (\<lambda>i. ym_key (months_before (year today) (month today) i)) [5, 4, 3, 2, 1, 0]"
      "sorted_wrt (<) (map fst mc)"
      "map snd mc =
        map (\<lambda>k. length (filter
                 (\<lambda>e. (involves u e \<and> is_spam e = Some 1) \<and> ts_prefix 7 e = Some k)
                 (emails st)))
          (map fst mc)"
    by (elim exE conjE) (rule that; assumption)
  have oa: "open_analytics today u st = Some (dc, mc)"
    by (simp add: open_analytics_def dc mc(1))
  have counts: "map snd mc =
        map (\<lambda>k. length (filter
                 (\<lambda>e. involves u e \<and> is_spam e = Some 1 \<and> ts_prefix 7 e = Some k)
                 (emails st)))
          (map fst mc)"
    using mc(5) by (simp only: conj_assoc)
  show ?thesis
    apply (rule exI [of _ dc])
    apply (rule exI [of _ mc])
    apply (intro conjI)
        apply (fact oa mc counts)+
    done
qed

theorem monthly_spam_counts_window_witness:
  "valid_date (Date 2024 5 10) \<and> 1 < year (Date 2024 5 10)
   \<and> map_option (\<lambda>r. (map fst (snd r), map snd (snd r)))
       (open_analytics (Date 2024 5 10) ''bob'' demo_mail)
     = Some ([''2023-12'', ''2024-01'', ''2024-02'', ''2024-03'', ''2024-04'', ''2024-05''],
             [0, 0, 0, 0, 0, 1])"
proof -
  have v: "valid_date (Date 2024 5 10)"
    by (simp add: valid_date_def days_in_month_def)
  have y: "1 < year (Date 2024 5 10)"
    by simp
  have keys: "month_keys (Date 2024 5 10)
      = [''2023-12'', ''2024-01'', ''2024-02'', ''2024-03'', ''2024-04'', ''2024-05'']"
    by code_simp
  have cnt: "map (\<lambda>k. length (filter
                     (\<lambda>e. involves ''bob'' e \<and> is_spam e = Some 1 \<and> ts_prefix 7 e = Some k)
                     (emails demo_mail)))
      [''2023-12'', ''2024-01'', ''2024-02'', ''2024-03'', ''2024-04'', ''2024-05'']
    = [0, 0, 0, 0, 0, 1]"
    by code_simp
  from monthly_spam_counts_window [OF v y, of "''bob''" demo_mail] obtain dc mc where
    r: "open_analytics (Date 2024 5 10) ''bob'' demo_mail = Some (dc, mc)"
    and k: "map fst mc
        = map (\<lambda>i. ym_key (months_before (year (Date 2024 5 10)) (month (Date 2024 5 10)) i))
            [5, 4, 3, 2, 1, 0]"
    and c: "map snd mc =
            map (\<lambda>k. length (filter
                     (\<lambda>e. involves ''bob'' e \<and> is_spam e = Some 1 \<and> ts_prefix 7 e = Some k)
                     (emails demo_mail)))
              (map fst mc)"
    by (elim exE conjE) (rule that; assumption)
  from k have k': "map fst mc
      = [''2023-12'', ''2024-01'', ''2024-02'', ''2024-03'', ''2024-04'', ''2024-05'']"
    by (simp only: month_keys_window [OF v, symmetric] keys)
  from c have c': "map snd mc = [0, 0, 0, 0, 0, 1]"
    by (simp only: k' cnt)
  have "map_option (\<lambda>r. (map fst (snd r), map snd (snd r)))
       (open_analytics (Date 2024 5 10) ''bob'' demo_mail)
     = Some ([''2023-12'', ''2024-01'', ''2024-02'', ''2024-03'', ''2024-04'', ''2024-05''],
             [0, 0, 0, 0, 0, 1])"
    by (simp only: r option.map snd_conv k' c')
  with v y show ?thesis by (intro conjI)
qed

end
